theory Spec2Isabelle
  imports Complex_Main "HOL-Library.Multiset"
begin

section \<open>JavaScript numbers\<close>

text \<open>
  A \<open>number\<close> of the source is a finite value, one of the two infinities, or NaN.
  Finite values carry exact real arithmetic: rounding, overflow to an infinity and the
  sign of zero are left out (every zero is taken as \<open>+0\<close>, which only matters for a
  non-zero value divided by zero). The operations below follow the language's rules for
  NaN and the infinities: any operation on NaN is NaN, every comparison with NaN is false.
\<close>

datatype number = Fin real | PInf | NInf | NaN

fun js_neg :: "number \<Rightarrow> number" where
  "js_neg (Fin a) = Fin (- a)"
| "js_neg PInf = NInf"
| "js_neg NInf = PInf"
| "js_neg NaN = NaN"

fun js_add :: "number \<Rightarrow> number \<Rightarrow> number" where
  "js_add NaN _ = NaN"
| "js_add _ NaN = NaN"
| "js_add (Fin a) (Fin b) = Fin (a + b)"
| "js_add (Fin a) PInf = PInf"
| "js_add (Fin a) NInf = NInf"
| "js_add PInf (Fin b) = PInf"
| "js_add NInf (Fin b) = NInf"
| "js_add PInf PInf = PInf"
| "js_add NInf NInf = NInf"
| "js_add PInf NInf = NaN"
| "js_add NInf PInf = NaN"

definition js_sub :: "number \<Rightarrow> number \<Rightarrow> number" where
  "js_sub a b = js_add a (js_neg b)"

fun js_mul :: "number \<Rightarrow> number \<Rightarrow> number" where
  "js_mul NaN _ = NaN"
| "js_mul _ NaN = NaN"
| "js_mul (Fin a) (Fin b) = Fin (a * b)"
| "js_mul (Fin a) PInf = (if a = 0 then NaN else if 0 < a then PInf else NInf)"
| "js_mul (Fin a) NInf = (if a = 0 then NaN else if 0 < a then NInf else PInf)"
| "js_mul PInf (Fin b) = (if b = 0 then NaN else if 0 < b then PInf else NInf)"
| "js_mul NInf (Fin b) = (if b = 0 then NaN else if 0 < b then NInf else PInf)"
| "js_mul PInf PInf = PInf"
| "js_mul NInf NInf = PInf"
| "js_mul PInf NInf = NInf"
| "js_mul NInf PInf = NInf"

fun js_div :: "number \<Rightarrow> number \<Rightarrow> number" where
  "js_div NaN _ = NaN"
| "js_div _ NaN = NaN"
| "js_div (Fin a) (Fin b) =
     (if b = 0 then (if a = 0 then NaN else if 0 < a then PInf else NInf)
      else Fin (a / b))"
| "js_div (Fin a) PInf = Fin 0"
| "js_div (Fin a) NInf = Fin 0"
| "js_div PInf (Fin b) = (if 0 \<le> b then PInf else NInf)"
| "js_div NInf (Fin b) = (if 0 \<le> b then NInf else PInf)"
| "js_div PInf PInf = NaN"
| "js_div NInf NInf = NaN"
| "js_div PInf NInf = NaN"
| "js_div NInf PInf = NaN"

text \<open>The relational operators \<open><\<close>, \<open>>\<close>, \<open>>=\<close> and the strict equality \<open>===\<close>.\<close>

fun js_lt :: "number \<Rightarrow> number \<Rightarrow> bool" where
  "js_lt NaN _ = False"
| "js_lt _ NaN = False"
| "js_lt (Fin a) (Fin b) = (a < b)"
| "js_lt (Fin a) PInf = True"
| "js_lt (Fin a) NInf = False"
| "js_lt PInf _ = False"
| "js_lt NInf NInf = False"
| "js_lt NInf (Fin b) = True"
| "js_lt NInf PInf = True"

definition js_gt :: "number \<Rightarrow> number \<Rightarrow> bool" where
  "js_gt a b = js_lt b a"

definition js_ge :: "number \<Rightarrow> number \<Rightarrow> bool" where
  "js_ge a b = (a \<noteq> NaN \<and> b \<noteq> NaN \<and> \<not> js_lt a b)"

definition js_strict_eq :: "number \<Rightarrow> number \<Rightarrow> bool" where
  "js_strict_eq a b = (a \<noteq> NaN \<and> a = b)"

text \<open>\<open>Math.max\<close> and \<open>Math.min\<close> of two arguments: NaN if either is NaN.\<close>

definition Math_max :: "number \<Rightarrow> number \<Rightarrow> number" where
  "Math_max a b = (if a = NaN \<or> b = NaN then NaN else if js_lt a b then b else a)"

definition Math_min :: "number \<Rightarrow> number \<Rightarrow> number" where
  "Math_min a b = (if a = NaN \<or> b = NaN then NaN else if js_lt b a then b else a)"

text \<open>\<open>Math.max(...xs)\<close>: the maximum of a spread array, \<open>-Infinity\<close> for no argument.\<close>

definition Math_max_spread :: "number list \<Rightarrow> number" where
  "Math_max_spread xs = fold (\<lambda>v acc. Math_max acc v) xs NInf"

text \<open>\<open>xs.indexOf(v)\<close>: the first index holding a value strictly equal to \<open>v\<close>, else -1.\<close>

fun indexOf_from :: "int \<Rightarrow> number list \<Rightarrow> number \<Rightarrow> int" where
  "indexOf_from i [] v = - 1"
| "indexOf_from i (a # as) v = (if js_strict_eq a v then i else indexOf_from (i + 1) as v)"

definition indexOf :: "number list \<Rightarrow> number \<Rightarrow> int" where
  "indexOf xs v = indexOf_from 0 xs v"

text \<open>Reading \<open>det[i]\<close> in arithmetic: a missing element is \<open>undefined\<close>, which becomes NaN.\<close>

definition at_num :: "number list \<Rightarrow> nat \<Rightarrow> number" where
  "at_num xs i = (if i < length xs then xs ! i else NaN)"


section \<open>Data model\<close>

record BoundingBox =
  x :: number
  y :: number
  width :: number
  height :: number

record Detection =
  box :: BoundingBox
  score :: number
  classId :: int
  maskCoeffs :: "number list option"
  mask :: "number list list option"


section \<open>Intersection over union\<close>

definition intersectionArea :: "BoundingBox \<Rightarrow> BoundingBox \<Rightarrow> number" where
  "intersectionArea box1 box2 =
     (let x1 = Math_max (x box1) (x box2);
          y1 = Math_max (y box1) (y box2);
          x2 = Math_min (js_add (x box1) (width box1)) (js_add (x box2) (width box2));
          y2 = Math_min (js_add (y box1) (height box1)) (js_add (y box2) (height box2));
          intersectionWidth = Math_max (Fin 0) (js_sub x2 x1);
          intersectionHeight = Math_max (Fin 0) (js_sub y2 y1)
      in js_mul intersectionWidth intersectionHeight)"

definition unionArea :: "BoundingBox \<Rightarrow> BoundingBox \<Rightarrow> number" where
  "unionArea box1 box2 =
     (let box1Area = js_mul (width box1) (height box1);
          box2Area = js_mul (width box2) (height box2)
      in js_sub (js_add box1Area box2Area) (intersectionArea box1 box2))"

definition calculateIoU :: "BoundingBox \<Rightarrow> BoundingBox \<Rightarrow> number" where
  "calculateIoU box1 box2 = js_div (intersectionArea box1 box2) (unionArea box1 box2)"

text \<open>The same areas over the reals, for boxes given by corner and extent.\<close>

definition overlap :: "real \<Rightarrow> real \<Rightarrow> real \<Rightarrow> real \<Rightarrow> real" where
  "overlap a1 w1 a2 w2 = max 0 (min (a1 + w1) (a2 + w2) - max a1 a2)"

definition finBox :: "real \<Rightarrow> real \<Rightarrow> real \<Rightarrow> real \<Rightarrow> BoundingBox" where
  "finBox a b w h = \<lparr>x = Fin a, y = Fin b, width = Fin w, height = Fin h\<rparr>"

section \<open>Non-maximum suppression\<close>

text \<open>The comparator handed to the sort: \<open>(a, b) => b.score - a.score\<close>.\<close>

definition scoreCompare :: "Detection \<Rightarrow> Detection \<Rightarrow> number" where
  "scoreCompare a b = js_sub (score b) (score a)"

text \<open>
  \<open>Array.prototype.sort\<close> with a comparator. The comparator's result is read through
  the language's SortCompare: a result of NaN counts as \<open>+0\<close>.
\<close>

definition sortCompare :: "('a \<Rightarrow> 'a \<Rightarrow> number) \<Rightarrow> 'a \<Rightarrow> 'a \<Rightarrow> number" where
  "sortCompare cmp a b = (let v = cmp a b in if v = NaN then Fin 0 else v)"

text \<open>
  For a consistent comparator the language fixes the result (the stable sort); for a
  comparator that is not consistent, as \<open>b.score - a.score\<close> is when a score is NaN, it
  leaves the order to the engine. The definitions follow the engine's algorithm as V8
  runs it on an array of fewer than 64 elements: the leading run is found (and reversed
  when it is strictly descending in the comparator's order), then every later element is
  put in place by binary insertion. On longer arrays V8 also merges runs, which is not
  modelled; with a consistent comparator the result is the same.

  The length of the run after its second element: the loop of \<open>CountAndMakeRun\<close>.
\<close>

fun extendRun :: "('a \<Rightarrow> 'a \<Rightarrow> number) \<Rightarrow> bool \<Rightarrow> 'a \<Rightarrow> 'a list \<Rightarrow> nat" where
  "extendRun cmp isDescending previousElement [] = 0"
| "extendRun cmp isDescending previousElement (currentElement # rest) =
     (let order = sortCompare cmp currentElement previousElement
      in if isDescending
         then (if js_ge order (Fin 0) then 0
               else Suc (extendRun cmp isDescending currentElement rest))
         else (if js_lt order (Fin 0) then 0
               else Suc (extendRun cmp isDescending currentElement rest)))"

definition countAndMakeRun :: "('a \<Rightarrow> 'a \<Rightarrow> number) \<Rightarrow> 'a list \<Rightarrow> 'a list \<times> nat" where
  "countAndMakeRun cmp workArray =
     (case workArray of
        elementHigh # elementLow # rest \<Rightarrow>
          let order = sortCompare cmp elementLow elementHigh;
              isDescending = js_lt order (Fin 0);
              runLength = 2 + extendRun cmp isDescending elementLow rest
          in (if isDescending
              then rev (take runLength workArray) @ drop runLength workArray
              else workArray, runLength)
      | _ \<Rightarrow> (workArray, length workArray))"

text \<open>The binary search of \<open>BinaryInsertionSort\<close> for the place of \<open>pivot\<close>.\<close>

function findInsertionPoint ::
  "('a \<Rightarrow> 'a \<Rightarrow> number) \<Rightarrow> 'a list \<Rightarrow> 'a \<Rightarrow> nat \<Rightarrow> nat \<Rightarrow> nat" where
  "findInsertionPoint cmp workArray pivot left right =
     (if left < right
      then (if js_lt (sortCompare cmp pivot (workArray ! (left + (right - left) div 2))) (Fin 0)
            then findInsertionPoint cmp workArray pivot left (left + (right - left) div 2)
            else findInsertionPoint cmp workArray pivot (left + (right - left) div 2 + 1) right)
      else left)"
  by pat_completeness auto
termination
  by (relation "measure (\<lambda>(cmp, workArray, pivot, left, right). right - left)") auto

declare findInsertionPoint.simps [simp del]

text \<open>One turn of \<open>BinaryInsertionSort\<close>: the element at \<open>start\<close> is moved to its place.\<close>

definition insertPivot :: "('a \<Rightarrow> 'a \<Rightarrow> number) \<Rightarrow> nat \<Rightarrow> 'a list \<Rightarrow> 'a list" where
  "insertPivot cmp start workArray =
     (let pivot = workArray ! start;
          left = findInsertionPoint cmp workArray pivot 0 start
      in take left workArray @ pivot # take (start - left) (drop left workArray)
           @ drop (Suc start) workArray)"

definition binaryInsertionSort :: "('a \<Rightarrow> 'a \<Rightarrow> number) \<Rightarrow> nat \<Rightarrow> 'a list \<Rightarrow> 'a list" where
  "binaryInsertionSort cmp startArg workArray =
     (let start = (if startArg = 0 then startArg + 1 else startArg)
      in fold (insertPivot cmp) [start ..< length workArray] workArray)"

definition array_sort :: "('a \<Rightarrow> 'a \<Rightarrow> number) \<Rightarrow> 'a list \<Rightarrow> 'a list" where
  "array_sort cmp xs =
     (if length xs < 2 then xs
      else case countAndMakeRun cmp xs of
             (workArray, runLength) \<Rightarrow> binaryInsertionSort cmp runLength workArray)"

text \<open>The inner loop over \<open>j = i + 1 .. length - 1\<close>, on the set of suppressed indices.\<close>

definition suppressStep :: "Detection list \<Rightarrow> number \<Rightarrow> nat \<Rightarrow> nat \<Rightarrow> nat set \<Rightarrow> nat set" where
  "suppressStep srt iouThreshold i j suppressed =
     (if j \<in> suppressed then suppressed
      else let iou = calculateIoU (box (srt ! i)) (box (srt ! j))
           in if js_gt iou iouThreshold then insert j suppressed else suppressed)"

definition suppressLater :: "Detection list \<Rightarrow> number \<Rightarrow> nat \<Rightarrow> nat set \<Rightarrow> nat set" where
  "suppressLater srt iouThreshold i suppressed =
     fold (suppressStep srt iouThreshold i) [i + 1 ..< length srt] suppressed"

text \<open>One turn of the outer loop, on the pair of \<open>selected\<close> and \<open>suppressed\<close>.\<close>

definition nmsStep ::
  "Detection list \<Rightarrow> number \<Rightarrow> nat \<Rightarrow> Detection list \<times> nat set \<Rightarrow> Detection list \<times> nat set" where
  "nmsStep srt iouThreshold i st =
     (case st of (selected, suppressed) \<Rightarrow>
        if i \<in> suppressed then (selected, suppressed)
        else (selected @ [srt ! i], suppressLater srt iouThreshold i suppressed))"

definition applyNMS :: "Detection list \<Rightarrow> number \<Rightarrow> Detection list" where
  "applyNMS detections iouThreshold =
     (if length detections = 0 then []
      else let srt = array_sort scoreCompare detections
           in fst (fold (nmsStep srt iouThreshold) [0 ..< length srt] ([], {})))"

text \<open>Scores in descending order: every earlier score is \<open>>=\<close> every later one.\<close>

definition descendingScores :: "Detection list \<Rightarrow> bool" where
  "descendingScores ds = sorted_wrt (\<lambda>a b. js_ge (score a) (score b)) ds"

text \<open>The loop invariant of the outer loop after the indices below \<open>k\<close>.\<close>

definition nmsInv :: "Detection list \<Rightarrow> number \<Rightarrow> nat \<Rightarrow> Detection list \<times> nat set \<Rightarrow> bool" where
  "nmsInv srt thr k st =
     (fst st = map ((!) srt) (filter (\<lambda>i. i \<notin> snd st) [0 ..< k]) \<and>
      (\<forall>i j. i < k \<and> i \<notin> snd st \<and> i < j \<and> j < length srt \<and> j \<notin> snd st \<longrightarrow>
         \<not> js_gt (calculateIoU (box (srt ! i)) (box (srt ! j))) thr))"


section \<open>Detection decoder\<close>

definition numClasses :: nat where
  "numClasses = 1"

text \<open>\<open>xs.slice(a, b)\<close> and \<open>xs.slice(a)\<close> for non-negative bounds.\<close>

definition slice :: "'a list \<Rightarrow> nat \<Rightarrow> nat \<Rightarrow> 'a list" where
  "slice xs a b = take (b - a) (drop a xs)"

definition slice_from :: "'a list \<Rightarrow> nat \<Rightarrow> 'a list" where
  "slice_from xs a = drop a xs"

definition classScoresOf :: "number list \<Rightarrow> number list" where
  "classScoresOf det = slice det 4 (4 + numClasses)"

definition maxScoreOf :: "number list \<Rightarrow> number" where
  "maxScoreOf det = Math_max_spread (classScoresOf det)"

text \<open>
  The body of the loop over the anchor rows: \<open>None\<close> is the \<open>continue\<close>, \<open>Some\<close> the
  record pushed onto \<open>results\<close>.
\<close>

definition decodeRow ::
  "number \<Rightarrow> number \<Rightarrow> number \<Rightarrow> number \<Rightarrow> number list \<Rightarrow> Detection option" where
  "decodeRow scale padL padT threshold det =
     (let xCenter = at_num det 0;
          yCenter = at_num det 1;
          w = at_num det 2;
          h = at_num det 3;
          classScores = classScoresOf det;
          maxScore = Math_max_spread classScores;
          cls = indexOf classScores maxScore
      in if js_lt maxScore threshold then None
         else
           let x1 = js_sub xCenter (js_div w (Fin 2));
               y1 = js_sub yCenter (js_div h (Fin 2));
               x2 = js_add xCenter (js_div w (Fin 2));
               y2 = js_add yCenter (js_div h (Fin 2));
               bx = \<lparr>x = js_div (js_sub x1 padL) scale,
                     y = js_div (js_sub y1 padT) scale,
                     width = js_div (js_sub x2 x1) scale,
                     height = js_div (js_sub y2 y1) scale\<rparr>;
               coeffs = slice_from det (4 + numClasses)
           in Some \<lparr>box = bx, score = maxScore, classId = cls,
                     maskCoeffs = (if length coeffs > 0 then Some coeffs else None),
                     mask = None\<rparr>)"

fun decodeRows ::
  "number \<Rightarrow> number \<Rightarrow> number \<Rightarrow> number \<Rightarrow> number list list \<Rightarrow> Detection list \<Rightarrow> Detection list" where
  "decodeRows scale padL padT threshold [] results = results"
| "decodeRows scale padL padT threshold (det # rest) results =
     (case decodeRow scale padL padT threshold det of
        None \<Rightarrow> decodeRows scale padL padT threshold rest results
      | Some d \<Rightarrow> decodeRows scale padL padT threshold rest (results @ [d]))"

text \<open>
  The forward letterbox map of the mask renderer, \<open>x640 = imgX * scale + padL\<close> (and the
  same for \<open>y\<close> with \<open>padT\<close>).
\<close>

definition to640 :: "number \<Rightarrow> number \<Rightarrow> number \<Rightarrow> number" where
  "to640 scale pad v = js_add (js_mul v scale) pad"

text \<open>
  A box of the original image as the centre-form anchor row that the letterbox puts into
  the network's square: both corners are mapped forward, then centre and extent are taken.
\<close>

definition letterboxRow :: "number \<Rightarrow> number \<Rightarrow> number \<Rightarrow> BoundingBox \<Rightarrow> number list \<Rightarrow> number list" where
  "letterboxRow scale padL padT b rest =
     (let lx = to640 scale padL (x b);
          rx = to640 scale padL (js_add (x b) (width b));
          ty = to640 scale padT (y b);
          by = to640 scale padT (js_add (y b) (height b))
      in [js_div (js_add lx rx) (Fin 2), js_div (js_add ty by) (Fin 2),
          js_sub rx lx, js_sub by ty] @ rest)"


section \<open>Tensors and the mask decoder\<close>

text \<open>
  A tensor of the numeric library: its shape and its values in row-major order. The
  library's operations fail with an exception on a shape they do not accept.
\<close>

record Tensor =
  shape :: "nat list"
  vals :: "number list"

datatype exn = TensorError | TypeError

definition squeeze0 :: "Tensor \<Rightarrow> exn + Tensor" where
  "squeeze0 t =
     (case shape t of
        [] \<Rightarrow> Inl TensorError
      | d # ds \<Rightarrow> if d = 1 then Inr (t\<lparr>shape := ds\<rparr>) else Inl TensorError)"

text \<open>\<open>transpose([2, 0, 1])\<close> of a rank-3 tensor.\<close>

definition transpose201 :: "Tensor \<Rightarrow> Tensor" where
  "transpose201 t =
     (case shape t of
        [a, b, c] \<Rightarrow>
          \<lparr>shape = [c, a, b],
           vals = concat (map (\<lambda>k. concat (map (\<lambda>i. map (\<lambda>j. vals t ! ((i * b + j) * c + k))
                     [0 ..< b]) [0 ..< a])) [0 ..< c])\<rparr>
      | _ \<Rightarrow> t)"

definition normalizeProtos :: "Tensor \<Rightarrow> Tensor" where
  "normalizeProtos protosData =
     (case shape protosData of
        [s0, s1, s2] \<Rightarrow> if s2 = 32 \<or> s2 < s0 then transpose201 protosData else protosData
      | _ \<Rightarrow> protosData)"

definition tensor1d :: "number list \<Rightarrow> Tensor" where
  "tensor1d vs = \<lparr>shape = [length vs], vals = vs\<rparr>"

definition js_sum :: "number list \<Rightarrow> number" where
  "js_sum vs = fold (\<lambda>v acc. js_add acc v) vs (Fin 0)"

text \<open>
  \<open>einsum('c,chw->hw', coeffs, protos)\<close>. The library compares the sizes named alike
  in the equation, here the leading size of each operand, and throws when they differ
  (or when the prototype operand has no dimension at all). It does not check the rank:
  when the leading sizes agree but an operand's rank does not fit the equation, no
  exception is raised, and what is returned is outside the library's contract (values
  that are not numbers, in a shape that depends on the operand); that tensor is left
  unspecified.
\<close>

definition einsum_c_chw :: "Tensor \<Rightarrow> Tensor \<Rightarrow> exn + Tensor" where
  "einsum_c_chw coeffs protos =
     (case shape coeffs of
        [] \<Rightarrow> Inr undefined
      | c # crest \<Rightarrow>
          (case shape protos of
             [] \<Rightarrow> Inl TensorError
           | c' # hw \<Rightarrow>
               if c \<noteq> c' then Inl TensorError
               else if crest = [] \<and> length hw = 2 then
                 (let h = hw ! 0; w = hw ! 1
                  in Inr \<lparr>shape = [h, w],
                          vals = concat (map (\<lambda>i. map (\<lambda>j.
                                   js_sum (map (\<lambda>k. js_mul (vals coeffs ! k) (vals protos ! ((k * h + i) * w + j)))
                                     [0 ..< c])) [0 ..< w]) [0 ..< h])\<rparr>)
               else Inr undefined))"

fun sigmoid :: "number \<Rightarrow> number" where
  "sigmoid (Fin a) = Fin (1 / (1 + exp (- a)))"
| "sigmoid PInf = Fin 1"
| "sigmoid NInf = Fin 0"
| "sigmoid NaN = NaN"

text \<open>
  The exponential has no code equation, so the equation for finite arguments is kept out
  of evaluation; the value at a concrete argument is derived by the simplifier.
\<close>

declare sigmoid.simps(1) [code del]

definition tf_sigmoid :: "Tensor \<Rightarrow> Tensor" where
  "tf_sigmoid t = t\<lparr>vals := map sigmoid (vals t)\<rparr>"

text \<open>\<open>arraySync()\<close> of a rank-2 tensor: its rows.\<close>

definition arraySync2 :: "Tensor \<Rightarrow> number list list" where
  "arraySync2 t =
     (case shape t of
        [h, w] \<Rightarrow> map (\<lambda>i. take w (drop (i * w) (vals t))) [0 ..< h]
      | _ \<Rightarrow> [])"

definition try_catch :: "exn + 'a \<Rightarrow> (exn \<Rightarrow> exn + 'a) \<Rightarrow> exn + 'a" where
  "try_catch body handler = (case body of Inl e \<Rightarrow> handler e | Inr v \<Rightarrow> Inr v)"

text \<open>The \<open>try\<close> block for one detection: the mask grid, or the exception thrown in it.\<close>

definition computeMask :: "number list \<Rightarrow> Tensor \<Rightarrow> exn + number list list" where
  "computeMask cs protosData =
     (let coeffs = tensor1d (slice cs 0 32)
      in case einsum_c_chw coeffs protosData of
           Inl e \<Rightarrow> Inl e
         | Inr maskTensor \<Rightarrow> Inr (arraySync2 (tf_sigmoid maskTensor)))"

text \<open>
  One turn of the loop over the detections. The state is the detection and the list of
  indices reported with \<open>console.error\<close>; the \<open>catch\<close> clause adds the index and goes on.
\<close>

definition decodeMaskStep :: "Tensor \<Rightarrow> nat \<Rightarrow> Detection \<Rightarrow> nat list \<Rightarrow> exn + Detection \<times> nat list" where
  "decodeMaskStep protosData i det errors =
     (case maskCoeffs det of
        None \<Rightarrow> Inr (det, errors)
      | Some cs \<Rightarrow>
          if length cs = 0 then Inr (det, errors)
          else try_catch
                 (case computeMask cs protosData of
                    Inl e \<Rightarrow> Inl e
                  | Inr m \<Rightarrow> Inr (det\<lparr>mask := Some m\<rparr>, errors))
                 (\<lambda>e. Inr (det, errors @ [i])))"

fun decodeMasksLoop ::
  "Tensor \<Rightarrow> nat \<Rightarrow> Detection list \<Rightarrow> nat list \<Rightarrow> exn + Detection list \<times> nat list" where
  "decodeMasksLoop protosData i [] errors = Inr ([], errors)"
| "decodeMasksLoop protosData i (det # rest) errors =
     (case decodeMaskStep protosData i det errors of
        Inl e \<Rightarrow> Inl e
      | Inr (det', errors') \<Rightarrow>
          (case decodeMasksLoop protosData (i + 1) rest errors' of
             Inl e \<Rightarrow> Inl e
           | Inr (rest', errors'') \<Rightarrow> Inr (det' # rest', errors'')))"

definition decodeMasks :: "Detection list \<Rightarrow> Tensor \<Rightarrow> exn + Detection list \<times> nat list" where
  "decodeMasks detections maskProtos =
     (case squeeze0 maskProtos of
        Inl e \<Rightarrow> Inl e
      | Inr protosData \<Rightarrow> decodeMasksLoop (normalizeProtos protosData) 0 detections [])"


section \<open>The postprocessing pipeline\<close>

datatype ModelOutput = Single Tensor | Several "Tensor list"

definition boxesOutOf :: "ModelOutput \<Rightarrow> Tensor option" where
  "boxesOutOf output =
     (case output of
        Single t \<Rightarrow> Some t
      | Several ts \<Rightarrow> (case ts of [] \<Rightarrow> None | t # _ \<Rightarrow> Some t))"

definition maskProtosOf :: "ModelOutput \<Rightarrow> Tensor option" where
  "maskProtosOf output =
     (case output of
        Single t \<Rightarrow> None
      | Several ts \<Rightarrow> if length ts > 1 then Some (ts ! 1) else None)"

text \<open>
  \<open>boxesOut.transpose([0, 2, 1])\<close>, \<open>array()\<close> and \<open>data[0]\<close>: the anchor rows of the
  first batch entry.
\<close>

definition anchorRows :: "Tensor \<Rightarrow> exn + number list list" where
  "anchorRows boxesOut =
     (case shape boxesOut of
        [b, c, n] \<Rightarrow>
          if b = 0 then Inl TypeError
          else Inr (map (\<lambda>i. map (\<lambda>j. vals boxesOut ! (j * n + i)) [0 ..< c]) [0 ..< n])
      | _ \<Rightarrow> Inl TensorError)"

definition processSegmentation ::
  "ModelOutput \<Rightarrow> number \<Rightarrow> number \<Rightarrow> number \<Rightarrow> number \<Rightarrow> number \<Rightarrow> number \<Rightarrow> bool
     \<Rightarrow> exn + Detection list" where
  "processSegmentation output imgWidth imgHeight scale padL padT threshold enableMasks =
     (case boxesOutOf output of
        None \<Rightarrow> Inl TypeError
      | Some boxesOut \<Rightarrow>
          (case anchorRows boxesOut of
             Inl e \<Rightarrow> Inl e
           | Inr detections \<Rightarrow>
               let results = decodeRows scale padL padT threshold detections [];
                   nmsResults = applyNMS results (Fin (45 / 100))
               in (case maskProtosOf output of
                     None \<Rightarrow> Inr nmsResults
                   | Some maskProtos \<Rightarrow>
                       if enableMasks \<and> length nmsResults > 0
                       then (case decodeMasks nmsResults maskProtos of
                               Inl e \<Rightarrow> Inl e
                             | Inr (decoded, errors) \<Rightarrow> Inr decoded)
                       else Inr nmsResults)))"


section \<open>Colour selection of the renderer\<close>

text \<open>
  The remainder operator \<open>%\<close> on integers keeps the sign of the dividend; a zero divisor
  gives NaN (\<open>None\<close>). Indexing an array outside its bounds, or at NaN, reads
  \<open>undefined\<close> (\<open>None\<close>).
\<close>

definition js_rem :: "int \<Rightarrow> int \<Rightarrow> int option" where
  "js_rem a n = (if n = 0 then None else Some (sgn a * (\<bar>a\<bar> mod \<bar>n\<bar>)))"

definition array_get :: "'a list \<Rightarrow> int option \<Rightarrow> 'a option" where
  "array_get xs idx =
     (case idx of
        None \<Rightarrow> None
      | Some i \<Rightarrow> if 0 \<le> i \<and> i < int (length xs) then Some (xs ! nat i) else None)"

definition colorOf :: "string list \<Rightarrow> Detection \<Rightarrow> string option" where
  "colorOf colors det = array_get colors (js_rem (classId det) (int (length colors)))"


section \<open>The per-image run\<close>

text \<open>
  The page state the run writes, and what the collaborators of one run do: whether a model
  is loaded, whether the canvas hands out a 2D context, and the outcome of every call
  that can throw.
\<close>

record PageState =
  isProcessing :: bool
  processingShown :: bool
  inferenceTimeShown :: bool
  imageUploadDisabled :: bool
  alerts :: nat

record Collaborators =
  modelLoaded :: bool
  context2d :: bool
  canvasDraw :: "exn + unit"
  preprocessImage :: "exn + number \<times> number \<times> number"
  executeAsync :: "exn + ModelOutput"
  drawDetections :: "exn + unit"
  imgWidth :: number
  imgHeight :: number

datatype completion = Returned | Threw exn

text \<open>The \<open>try\<close> block: the number of detections shown, or the exception thrown.\<close>

definition pipelineBody :: "Collaborators \<Rightarrow> exn + nat" where
  "pipelineBody c =
     (case preprocessImage c of
        Inl e \<Rightarrow> Inl e
      | Inr (scale, padL, padT) \<Rightarrow>
          (case executeAsync c of
             Inl e \<Rightarrow> Inl e
           | Inr predictions \<Rightarrow>
               (case processSegmentation predictions (imgWidth c) (imgHeight c) scale padL padT
                       (Fin (1 / 2)) True of
                  Inl e \<Rightarrow> Inl e
                | Inr results \<Rightarrow>
                    (case drawDetections c of
                       Inl e \<Rightarrow> Inl e
                     | Inr _ \<Rightarrow> Inr (length results)))))"

definition detectAndSegment :: "Collaborators \<Rightarrow> PageState \<Rightarrow> PageState \<times> completion" where
  "detectAndSegment c s =
     (if \<not> modelLoaded c \<or> isProcessing s then (s, Returned)
      else
        let s1 = s\<lparr>isProcessing := True, processingShown := True,
                   inferenceTimeShown := False, imageUploadDisabled := True\<rparr>
        in if \<not> context2d c then (s1, Returned)
           else
             (case canvasDraw c of
                Inl e \<Rightarrow> (s1, Threw e)
              | Inr _ \<Rightarrow>
                  let s2 = (case pipelineBody c of
                              Inr n \<Rightarrow> s1\<lparr>inferenceTimeShown := True\<rparr>
                            | Inl e \<Rightarrow> s1\<lparr>alerts := alerts s1 + 1\<rparr>)
                  in (s2\<lparr>isProcessing := False, processingShown := False,
                         imageUploadDisabled := False\<rparr>, Returned)))"

section \<open>Example inputs\<close>

definition plainDetection :: "BoundingBox \<Rightarrow> number \<Rightarrow> Detection" where
  "plainDetection b s = \<lparr>box = b, score = s, classId = 0, maskCoeffs = None, mask = None\<rparr>"

definition overlappingExample :: "Detection list" where
  "overlappingExample =
     [plainDetection (finBox 0 0 10 10) (Fin (8 / 10)),
      plainDetection (finBox 100 100 10 10) (Fin (7 / 10)),
      plainDetection (finBox 0 0 10 10) (Fin (9 / 10))]"

definition nanScoreExample :: "Detection list" where
  "nanScoreExample =
     [plainDetection (finBox 0 0 10 10) (Fin 1),
      plainDetection (finBox 100 100 10 10) NaN,
      plainDetection (finBox 200 200 10 10) (Fin 2)]"

definition thresholdRow :: "number list" where
  "thresholdRow = [Fin 320, Fin 320, Fin 100, Fin 100, Fin (1 / 2)]"

definition lowScoreRow :: "number list" where
  "lowScoreRow = [Fin 1, Fin 1, Fin 1, Fin 1, Fin (49 / 100)]"

definition nanRow :: "number list" where
  "nanRow = [Fin 320, Fin 320, Fin 100, Fin 100, NaN]"

definition negativeWidthRow :: "number list" where
  "negativeWidthRow = [Fin 320, Fin 320, Fin (- 100), Fin 100, Fin (9 / 10)]"

definition nanOutput :: ModelOutput where
  "nanOutput = Single \<lparr>shape = [1, 5, 1], vals = nanRow\<rparr>"

definition idlePage :: PageState where
  "idlePage = \<lparr>isProcessing = False, processingShown = False, inferenceTimeShown = False,
                imageUploadDisabled = False, alerts = 0\<rparr>"

definition noContextRun :: Collaborators where
  "noContextRun = \<lparr>modelLoaded = True, context2d = False, canvasDraw = Inr (),
                    preprocessImage = Inr (Fin 1, Fin 0, Fin 0), executeAsync = Inr nanOutput,
                    drawDetections = Inr (), imgWidth = Fin 640, imgHeight = Fin 640\<rparr>"

definition channelsLastProtos :: Tensor where
  "channelsLastProtos = \<lparr>shape = [1, 1, 1, 32], vals = replicate 32 (Fin 0)\<rparr>"

definition squeezedProtos :: Tensor where
  "squeezedProtos = \<lparr>shape = [1, 1, 32], vals = replicate 32 (Fin 0)\<rparr>"

definition channelsFirstProtos :: Tensor where
  "channelsFirstProtos = \<lparr>shape = [32, 1, 1], vals = replicate 32 (Fin 0)\<rparr>"

definition shortCoeffsDetection :: Detection where
  "shortCoeffsDetection =
     \<lparr>box = finBox 0 0 10 10, score = Fin (9 / 10), classId = 0,
      maskCoeffs = Some [Fin 1, Fin 1], mask = None\<rparr>"

definition fullCoeffsDetection :: Detection where
  "fullCoeffsDetection =
     \<lparr>box = finBox 100 100 10 10, score = Fin (8 / 10), classId = 0,
      maskCoeffs = Some (replicate 33 (Fin 1)), mask = None\<rparr>"

text \<open>
  Prototypes that tell the channels apart: channel 0 holds 1, channel 31 holds 2, the
  others 0, in channel-last layout; a channel-first tensor 33 columns wide; and 33
  coefficients of which the last must not count.
\<close>

definition weightedProtos :: Tensor where
  "weightedProtos = \<lparr>shape = [1, 1, 1, 32], vals = Fin 1 # replicate 30 (Fin 0) @ [Fin 2]\<rparr>"

definition channelsFirstWideProtos :: Tensor where
  "channelsFirstWideProtos = \<lparr>shape = [1, 32, 1, 33], vals = replicate 1056 (Fin 1)\<rparr>"

definition weightedCoeffs :: "number list" where
  "weightedCoeffs = Fin 3 # replicate 30 (Fin 7) @ [Fin 5, Fin 11]"

definition weightedDetection :: Detection where
  "weightedDetection =
     \<lparr>box = finBox 100 100 10 10, score = Fin (8 / 10), classId = 0,
      maskCoeffs = Some weightedCoeffs, mask = None\<rparr>"

text \<open>Intersection and union area of two boxes over the reals.\<close>

definition interReal :: "real \<Rightarrow> real \<Rightarrow> real \<Rightarrow> real \<Rightarrow> real \<Rightarrow> real \<Rightarrow> real \<Rightarrow> real \<Rightarrow> real" where
  "interReal a1 b1 w1 h1 a2 b2 w2 h2 = overlap a1 w1 a2 w2 * overlap b1 h1 b2 h2"

definition unionReal :: "real \<Rightarrow> real \<Rightarrow> real \<Rightarrow> real \<Rightarrow> real \<Rightarrow> real \<Rightarrow> real \<Rightarrow> real \<Rightarrow> real" where
  "unionReal a1 b1 w1 h1 a2 b2 w2 h2 = w1 * h1 + w2 * h2 - interReal a1 b1 w1 h1 a2 b2 w2 h2"


section \<open>Properties of the intersection over union\<close>

lemma intersectionArea_fin:
  "intersectionArea (finBox a1 b1 w1 h1) (finBox a2 b2 w2 h2) =
     Fin (interReal a1 b1 w1 h1 a2 b2 w2 h2)"
  by (simp add: intersectionArea_def finBox_def Math_max_def Math_min_def js_sub_def
      overlap_def interReal_def Let_def max_def min_def)

lemma unionArea_fin:
  "unionArea (finBox a1 b1 w1 h1) (finBox a2 b2 w2 h2) =
     Fin (unionReal a1 b1 w1 h1 a2 b2 w2 h2)"
  by (simp add: unionArea_def intersectionArea_fin js_sub_def unionReal_def)
     (simp add: finBox_def)

lemma interReal_nonneg: "0 \<le> interReal a1 b1 w1 h1 a2 b2 w2 h2"
  by (simp add: interReal_def overlap_def)

text \<open>
  C2 (as amended). For every pair of boxes with finite coordinates the IoU is the
  intersection area divided by the union area whenever the union area is not zero. When
  the union area is zero the result is not 0: it is NaN when the intersection area is
  zero as well (two zero-area boxes), and the positive infinity otherwise. No exception
  is raised in any case.
\<close>

theorem C2_calculateIoU_ratio_or_NaN:
  "calculateIoU (finBox a1 b1 w1 h1) (finBox a2 b2 w2 h2) =
     (if unionReal a1 b1 w1 h1 a2 b2 w2 h2 = 0
      then (if interReal a1 b1 w1 h1 a2 b2 w2 h2 = 0 then NaN else PInf)
      else Fin (interReal a1 b1 w1 h1 a2 b2 w2 h2 / unionReal a1 b1 w1 h1 a2 b2 w2 h2))"
  using interReal_nonneg [of a1 b1 w1 h1 a2 b2 w2 h2]
  by (simp add: calculateIoU_def intersectionArea_fin unionArea_fin)

theorem C2_calculateIoU_ratio_or_NaN_witness:
  "unionReal 0 0 0 0 0 0 0 0 = 0 \<and> interReal 0 0 0 0 0 0 0 0 = 0 \<and>
   calculateIoU (finBox 0 0 0 0) (finBox 0 0 0 0) = NaN \<and>
   unionReal 0 0 2 2 1 0 2 2 \<noteq> 0 \<and>
   calculateIoU (finBox 0 0 2 2) (finBox 1 0 2 2) = Fin (1 / 3)"
  using C2_calculateIoU_ratio_or_NaN [of 0 0 0 0 0 0 0 0]
    C2_calculateIoU_ratio_or_NaN [of 0 0 2 2 1 0 2 2]
  by (simp add: unionReal_def interReal_def overlap_def)

text \<open>
  C2, the claim as stated, fails: for two zero-area boxes the union area is zero and the
  result is NaN, not 0.
\<close>

theorem C2_counterexample:
  "calculateIoU \<lparr>x = Fin 0, y = Fin 0, width = Fin 0, height = Fin 0\<rparr>
                \<lparr>x = Fin 0, y = Fin 0, width = Fin 0, height = Fin 0\<rparr> = NaN \<and>
   calculateIoU \<lparr>x = Fin 0, y = Fin 0, width = Fin 0, height = Fin 0\<rparr>
                \<lparr>x = Fin 0, y = Fin 0, width = Fin 0, height = Fin 0\<rparr> \<noteq> Fin 0"
  by (simp add: calculateIoU_def intersectionArea_def unionArea_def Math_max_def Math_min_def
      js_sub_def)


section \<open>Properties of the sort and of non-maximum suppression\<close>

lemma Math_max_commute: "Math_max a b = Math_max b a"
  by (cases a; cases b) (auto simp: Math_max_def)

lemma Math_min_commute: "Math_min a b = Math_min b a"
  by (cases a; cases b) (auto simp: Math_min_def)

lemma js_add_commute: "js_add a b = js_add b a"
  by (cases a; cases b) auto

lemma js_mul_commute: "js_mul a b = js_mul b a"
  by (cases a; cases b) auto

lemma intersectionArea_commute: "intersectionArea b1 b2 = intersectionArea b2 b1"
  unfolding intersectionArea_def Let_def
  by (simp only: Math_max_commute [of "x b1"] Math_max_commute [of "y b1"]
      Math_min_commute [of "js_add (x b1) (width b1)"] Math_min_commute [of "js_add (y b1) (height b1)"])

lemma unionArea_commute: "unionArea b1 b2 = unionArea b2 b1"
  unfolding unionArea_def Let_def
  by (simp only: intersectionArea_commute [of b1] js_add_commute [of "js_mul (width b1) (height b1)"])

lemma calculateIoU_commute: "calculateIoU b1 b2 = calculateIoU b2 b1"
  unfolding calculateIoU_def
  by (simp only: intersectionArea_commute [of b1] unionArea_commute [of b1])

lemma findInsertionPoint_bounds:
  "left \<le> right \<Longrightarrow>
     left \<le> findInsertionPoint cmp workArray pivot left right \<and>
     findInsertionPoint cmp workArray pivot left right \<le> right"
proof (induction cmp workArray pivot left right rule: findInsertionPoint.induct)
  case (1 cmp workArray pivot left right)
  show ?case
  proof (cases "left < right")
    case False
    then have "findInsertionPoint cmp workArray pivot left right = left"
      by (subst findInsertionPoint.simps) simp
    with "1.prems" show ?thesis by simp
  next
    case True
    let ?mid = "left + (right - left) div 2"
    from True have m: "left \<le> ?mid" "?mid < right" by simp_all
    show ?thesis
    proof (cases "js_lt (sortCompare cmp pivot (workArray ! ?mid)) (Fin 0)")
      case lt: True
      from "1.IH"(1) [OF True lt] m
      have "left \<le> findInsertionPoint cmp workArray pivot left ?mid \<and>
            findInsertionPoint cmp workArray pivot left ?mid \<le> ?mid"
        by simp
      moreover have "findInsertionPoint cmp workArray pivot left right =
          findInsertionPoint cmp workArray pivot left ?mid"
        using True lt by (subst findInsertionPoint.simps) simp
      ultimately show ?thesis
        using m by simp
    next
      case ge: False
      from "1.IH"(2) [OF True ge] m
      have "?mid + 1 \<le> findInsertionPoint cmp workArray pivot (?mid + 1) right \<and>
            findInsertionPoint cmp workArray pivot (?mid + 1) right \<le> right"
        by simp
      moreover have "findInsertionPoint cmp workArray pivot left right =
          findInsertionPoint cmp workArray pivot (?mid + 1) right"
        using True ge by (subst findInsertionPoint.simps) simp
      ultimately show ?thesis
        using m by simp
    qed
  qed
qed

lemma insertPivot_split:
  assumes "start < length workArray" and "left \<le> start"
  shows "workArray = take left workArray @ take (start - left) (drop left workArray)
                       @ workArray ! start # drop (Suc start) workArray"
proof -
  have "drop left workArray = take (start - left) (drop left workArray) @ drop (start - left) (drop left workArray)"
    by (simp only: append_take_drop_id)
  also have "drop (start - left) (drop left workArray) = drop start workArray"
    using assms(2) by simp
  also have "drop start workArray = workArray ! start # drop (Suc start) workArray"
    using assms(1) by (simp add: Cons_nth_drop_Suc)
  finally have "drop left workArray = take (start - left) (drop left workArray)
                  @ workArray ! start # drop (Suc start) workArray" .
  then have "take left workArray @ drop left workArray =
      take left workArray @ take (start - left) (drop left workArray)
        @ workArray ! start # drop (Suc start) workArray"
    by (rule arg_cong)
  then show ?thesis by (simp only: append_take_drop_id)
qed

lemma mset_insertPivot:
  assumes "start < length workArray"
  shows "mset (insertPivot cmp start workArray) = mset workArray"
proof -
  let ?l = "findInsertionPoint cmp workArray (workArray ! start) 0 start"
  have l: "?l \<le> start"
    using findInsertionPoint_bounds [of 0 start] by simp
  have "mset (take ?l workArray @ take (start - ?l) (drop ?l workArray)
                       @ workArray ! start # drop (Suc start) workArray) = mset workArray"
    by (simp only: insertPivot_split [OF assms l, symmetric])
  then show ?thesis
    by (simp add: insertPivot_def Let_def)
qed

lemma length_insertPivot:
  "start < length workArray \<Longrightarrow> length (insertPivot cmp start workArray) = length workArray"
  using mset_insertPivot [of start workArray cmp] by (metis size_mset)

lemma fold_insertPivot:
  "n \<le> length workArray \<Longrightarrow>
     mset (fold (insertPivot cmp) [a ..< n] workArray) = mset workArray \<and>
     length (fold (insertPivot cmp) [a ..< n] workArray) = length workArray"
proof (induction n)
  case 0
  then show ?case by simp
next
  case (Suc n)
  show ?case
  proof (cases "a \<le> n")
    case True
    with Suc show ?thesis
      by (simp add: mset_insertPivot length_insertPivot)
  next
    case False
    then show ?thesis by simp
  qed
qed

lemma extendRun_le: "extendRun cmp d previousElement rest \<le> length rest"
  by (induction rest arbitrary: previousElement) (auto simp: Let_def)

lemma countAndMakeRun_mset:
  "countAndMakeRun cmp xs = (workArray, runLength) \<Longrightarrow>
     mset workArray = mset xs \<and> length workArray = length xs \<and> runLength \<le> length xs"
proof (cases xs)
  case Nil
  then show "countAndMakeRun cmp xs = (workArray, runLength) \<Longrightarrow> ?thesis"
    by (auto simp: countAndMakeRun_def)
next
  case (Cons a as)
  assume r: "countAndMakeRun cmp xs = (workArray, runLength)"
  show ?thesis
  proof (cases as)
    case Nil
    with Cons r show ?thesis by (auto simp: countAndMakeRun_def)
  next
    case (Cons b bs)
    let ?d = "js_lt (sortCompare cmp b a) (Fin 0)"
    let ?n = "2 + extendRun cmp ?d b bs"
    have n: "?n \<le> length xs"
      using extendRun_le [of cmp ?d b bs] \<open>xs = a # as\<close> Cons by simp
    have w: "workArray = (if ?d then rev (take ?n xs) @ drop ?n xs else xs)" and rl: "runLength = ?n"
      using r \<open>xs = a # as\<close> Cons by (auto simp: countAndMakeRun_def Let_def)
    have "mset (rev (take ?n xs) @ drop ?n xs) = mset (take ?n xs @ drop ?n xs)"
      by (simp only: mset_append mset_rev)
    then have "mset (rev (take ?n xs) @ drop ?n xs) = mset xs"
      by (simp only: append_take_drop_id)
    moreover have "length (rev (take ?n xs) @ drop ?n xs) = length xs"
      by simp
    ultimately show ?thesis
      using w rl n by auto
  qed
qed

lemma mset_array_sort: "mset (array_sort cmp xs) = mset xs"
proof (cases "length xs < 2")
  case True
  then show ?thesis by (simp add: array_sort_def)
next
  case False
  obtain workArray runLength where r: "countAndMakeRun cmp xs = (workArray, runLength)"
    by (cases "countAndMakeRun cmp xs")
  from countAndMakeRun_mset [OF r] have m: "mset workArray = mset xs"
    by simp
  have "mset (binaryInsertionSort cmp runLength workArray) = mset workArray"
    unfolding binaryInsertionSort_def Let_def
    using fold_insertPivot [of "length workArray" workArray cmp] by simp
  with False r m show ?thesis
    by (simp add: array_sort_def)
qed


lemma js_ge_trans: "js_ge a b \<Longrightarrow> js_ge b c \<Longrightarrow> js_ge a c"
  by (cases a; cases b; cases c) (auto simp: js_ge_def)

lemma js_lt_imp_ge: "js_lt a b \<Longrightarrow> js_ge b a"
  by (cases a; cases b) (auto simp: js_ge_def)

lemma js_ge_lt_trans: "js_ge a b \<Longrightarrow> js_lt a p \<Longrightarrow> js_lt b p"
  by (cases a; cases b; cases p) (auto simp: js_ge_def)

lemma sortCompare_score_lt:
  "js_lt (sortCompare scoreCompare a b) (Fin 0) = js_lt (score b) (score a)"
  by (cases "score a"; cases "score b") (auto simp: sortCompare_def scoreCompare_def js_sub_def)

lemma sortCompare_score_ge:
  "js_ge (sortCompare scoreCompare a b) (Fin 0) = (\<not> js_lt (score b) (score a))"
  by (cases "score a"; cases "score b")
     (auto simp: sortCompare_def scoreCompare_def js_sub_def js_ge_def)

lemma transp_score_ge: "transp (\<lambda>a b. js_ge (score a) (score b))"
  by (rule transpI) (rule js_ge_trans)

lemma transp_score_le: "transp (\<lambda>a b. js_ge (score b) (score a))"
  by (rule transpI) (erule (1) js_ge_trans [rotated])

lemma extendRun_ascending:
  "score previousElement \<noteq> NaN \<Longrightarrow> \<forall>d\<in>set rest. score d \<noteq> NaN \<Longrightarrow>
     sorted_wrt (\<lambda>a b. js_ge (score a) (score b))
       (previousElement # take (extendRun scoreCompare False previousElement rest) rest)"
proof (induction rest arbitrary: previousElement)
  case Nil
  then show ?case by simp
next
  case (Cons c rest)
  show ?case
  proof (cases "js_lt (score previousElement) (score c)")
    case True
    then show ?thesis by (simp add: Let_def sortCompare_score_lt)
  next
    case False
    with Cons.prems have "js_ge (score previousElement) (score c)"
      by (simp add: js_ge_def)
    moreover have "sorted_wrt (\<lambda>a b. js_ge (score a) (score b))
        (c # take (extendRun scoreCompare False c rest) rest)"
      using Cons.IH [of c] Cons.prems by simp
    ultimately show ?thesis
      using False by (auto simp: Let_def sortCompare_score_lt intro: js_ge_trans)
  qed
qed

lemma extendRun_descending:
  "sorted_wrt (\<lambda>a b. js_ge (score b) (score a))
     (previousElement # take (extendRun scoreCompare True previousElement rest) rest)"
proof (induction rest arbitrary: previousElement)
  case Nil
  then show ?case by simp
next
  case (Cons c rest)
  show ?case
  proof (cases "js_lt (score previousElement) (score c)")
    case False
    then show ?thesis by (simp add: Let_def sortCompare_score_ge)
  next
    case True
    then have "js_ge (score c) (score previousElement)"
      by (rule js_lt_imp_ge)
    with True Cons.IH [of c] show ?thesis
      by (auto simp: Let_def sortCompare_score_ge intro: js_ge_trans)
  qed
qed

lemma countAndMakeRun_descending:
  assumes "countAndMakeRun scoreCompare xs = (workArray, runLength)"
    and "2 \<le> length xs" and "\<forall>d\<in>set xs. score d \<noteq> NaN"
  shows "descendingScores (take runLength workArray) \<and> 2 \<le> runLength"
proof -
  from assms(2) obtain a b bs where xs: "xs = a # b # bs"
    by (cases xs; cases "tl xs") auto
  let ?d = "js_lt (score a) (score b)"
  let ?n = "2 + extendRun scoreCompare ?d b bs"
  have rl: "runLength = ?n"
    and w: "workArray = (if ?d then rev (take ?n xs) @ drop ?n xs else xs)"
    using assms(1) by (auto simp: countAndMakeRun_def xs Let_def sortCompare_score_lt)
  have n: "?n \<le> length xs"
    using extendRun_le [of scoreCompare ?d b bs] by (simp add: xs)
  have tk: "take ?n xs = a # b # take (extendRun scoreCompare ?d b bs) bs"
    by (simp add: xs)
  show ?thesis
  proof (cases ?d)
    case False
    with assms(3) have "js_ge (score a) (score b)"
      by (simp add: xs js_ge_def)
    moreover have "sorted_wrt (\<lambda>a b. js_ge (score a) (score b))
        (b # take (extendRun scoreCompare False b bs) bs)"
      using extendRun_ascending [of b bs] assms(3) by (simp add: xs)
    ultimately have "descendingScores (take ?n xs)"
      using False unfolding tk descendingScores_def
      by (auto intro: js_ge_trans)
    with False w rl show ?thesis by simp
  next
    case True
    then have "js_ge (score b) (score a)"
      by (rule js_lt_imp_ge)
    with extendRun_descending [of b bs]
    have "sorted_wrt (\<lambda>a b. js_ge (score b) (score a)) (take ?n xs)"
      using True unfolding tk by (auto intro: js_ge_trans)
    then have d: "descendingScores (rev (take ?n xs))"
      by (simp add: descendingScores_def sorted_wrt_rev)
    have wa: "workArray = rev (take ?n xs) @ drop ?n xs"
      using w True by (simp only: if_True)
    have t: "take runLength workArray = rev (take ?n xs)"
      unfolding rl wa using n by simp
    have "2 \<le> runLength"
      by (simp add: rl)
    with d show ?thesis
      by (simp only: t)
  qed
qed


lemma findInsertionPoint_sorted:
  assumes "descendingScores (take s workArray)" and "s \<le> length workArray"
  shows "left \<le> right \<Longrightarrow> right \<le> s \<Longrightarrow>
     (\<forall>i<left. \<not> js_lt (score (workArray ! i)) (score pivot)) \<Longrightarrow>
     (\<forall>i. right \<le> i \<and> i < s \<longrightarrow> js_lt (score (workArray ! i)) (score pivot)) \<Longrightarrow>
     (\<forall>i<findInsertionPoint scoreCompare workArray pivot left right.
         \<not> js_lt (score (workArray ! i)) (score pivot)) \<and>
     (\<forall>i. findInsertionPoint scoreCompare workArray pivot left right \<le> i \<and> i < s \<longrightarrow>
         js_lt (score (workArray ! i)) (score pivot))"
proof (induction "right - left" arbitrary: left right rule: less_induct)
  case less
  have ord: "js_ge (score (workArray ! i)) (score (workArray ! j))" if "i < j" "j < s" for i j
  proof -
    from that assms(2)
    have "js_ge (score (take s workArray ! i)) (score (take s workArray ! j))"
      using assms(1) by (auto simp: descendingScores_def sorted_wrt_iff_nth_less)
    with that show ?thesis by simp
  qed
  show ?case
  proof (cases "left < right")
    case False
    then have "findInsertionPoint scoreCompare workArray pivot left right = left"
      by (subst findInsertionPoint.simps) simp
    with False less.prems show ?thesis by auto
  next
    case True
    let ?mid = "left + (right - left) div 2"
    from True have m: "left \<le> ?mid" "?mid < right" by simp_all
    show ?thesis
    proof (cases "js_lt (score (workArray ! ?mid)) (score pivot)")
      case lt: True
      have eq: "findInsertionPoint scoreCompare workArray pivot left right =
          findInsertionPoint scoreCompare workArray pivot left ?mid"
        using True lt by (subst findInsertionPoint.simps) (simp add: sortCompare_score_lt)
      have up: "\<forall>i. ?mid \<le> i \<and> i < s \<longrightarrow> js_lt (score (workArray ! i)) (score pivot)"
      proof (intro allI impI)
        fix i assume i: "?mid \<le> i \<and> i < s"
        show "js_lt (score (workArray ! i)) (score pivot)"
        proof (cases "i = ?mid")
          case True
          with lt show ?thesis by simp
        next
          case False
          with i have "js_ge (score (workArray ! ?mid)) (score (workArray ! i))"
            by (intro ord) simp_all
          then show ?thesis using lt by (rule js_ge_lt_trans)
        qed
      qed
      have "?mid - left < right - left" "left \<le> ?mid" "?mid \<le> s"
        using m less.prems(2) by simp_all
      from less.hyps [OF this less.prems(3) up] show ?thesis
        unfolding eq .
    next
      case ge: False
      have eq: "findInsertionPoint scoreCompare workArray pivot left right =
          findInsertionPoint scoreCompare workArray pivot (?mid + 1) right"
        using True ge by (subst findInsertionPoint.simps) (simp add: sortCompare_score_lt)
      have low: "\<forall>i<?mid + 1. \<not> js_lt (score (workArray ! i)) (score pivot)"
      proof (intro allI impI)
        fix i assume i: "i < ?mid + 1"
        show "\<not> js_lt (score (workArray ! i)) (score pivot)"
        proof (cases "i = ?mid")
          case True
          with ge show ?thesis by simp
        next
          case False
          with i m less.prems(2) have "js_ge (score (workArray ! i)) (score (workArray ! ?mid))"
            by (intro ord) simp_all
          then show ?thesis using ge js_ge_lt_trans by blast
        qed
      qed
      have "right - (?mid + 1) < right - left" "?mid + 1 \<le> right"
        using m by simp_all
      from less.hyps [OF this less.prems(2) low less.prems(4)] show ?thesis
        unfolding eq .
    qed
  qed
qed

lemma insertPivot_descending:
  assumes "descendingScores (take s workArray)" and "s < length workArray"
    and "\<forall>d\<in>set workArray. score d \<noteq> NaN"
  shows "descendingScores (take (Suc s) (insertPivot scoreCompare s workArray))"
proof -
  let ?pivot = "workArray ! s"
  let ?l = "findInsertionPoint scoreCompare workArray ?pivot 0 s"
  let ?A = "take ?l workArray"
  let ?B = "take (s - ?l) (drop ?l workArray)"
  have l: "?l \<le> s"
    using findInsertionPoint_bounds [of 0 s] by simp
  have s': "s \<le> length workArray"
    using assms(2) by simp
  have fp: "(\<forall>i<?l. \<not> js_lt (score (workArray ! i)) (score ?pivot)) \<and>
      (\<forall>i. ?l \<le> i \<and> i < s \<longrightarrow> js_lt (score (workArray ! i)) (score ?pivot))"
    by (rule findInsertionPoint_sorted [OF assms(1) s']) auto
  have nn: "score (workArray ! i) \<noteq> NaN" if "i < length workArray" for i
    using assms(3) that by simp
  have AB: "take s workArray = ?A @ ?B"
  proof -
    have "take s workArray = take ?l (take s workArray) @ drop ?l (take s workArray)"
      by (simp only: append_take_drop_id)
    also have "take ?l (take s workArray) = ?A"
      using l by (simp add: min_absorb1)
    also have "drop ?l (take s workArray) = ?B"
      by (simp add: drop_take)
    finally show ?thesis .
  qed
  have sAB: "sorted_wrt (\<lambda>a b. js_ge (score a) (score b)) (?A @ ?B)"
    using assms(1) unfolding AB descendingScores_def .
  have a: "js_ge (score d) (score ?pivot)" if "d \<in> set ?A" for d
  proof -
    from that obtain i where i: "i < ?l" "d = workArray ! i"
      by (auto simp: in_set_conv_nth)
    with fp have "\<not> js_lt (score d) (score ?pivot)" by simp
    moreover have "score d \<noteq> NaN" "score ?pivot \<noteq> NaN"
      using i l assms(2) by (simp_all add: nn)
    ultimately show ?thesis by (simp add: js_ge_def)
  qed
  have b: "js_ge (score ?pivot) (score d)" if "d \<in> set ?B" for d
  proof -
    from that obtain k where k: "k < s - ?l" "d = workArray ! (?l + k)"
      using assms(2) by (auto simp: in_set_conv_nth)
    with fp have "js_lt (score d) (score ?pivot)" by simp
    then show ?thesis by (rule js_lt_imp_ge)
  qed
  have len: "length (?A @ ?pivot # ?B) = Suc s"
    using l assms(2) by simp
  have "take (Suc s) (insertPivot scoreCompare s workArray) = ?A @ ?pivot # ?B"
  proof -
    have g: "take (length X) (X @ Y) = X" for X Y :: "Detection list"
      by simp
    have "insertPivot scoreCompare s workArray = (?A @ ?pivot # ?B) @ drop (Suc s) workArray"
      by (simp add: insertPivot_def Let_def)
    then have "take (Suc s) (insertPivot scoreCompare s workArray) =
        take (length (?A @ ?pivot # ?B)) ((?A @ ?pivot # ?B) @ drop (Suc s) workArray)"
      by (simp only: len)
    then show ?thesis
      by (simp only: g)
  qed
  moreover have "sorted_wrt (\<lambda>a b. js_ge (score a) (score b)) (?A @ ?pivot # ?B)"
    using sAB a b by (auto simp: sorted_wrt_append)
  ultimately show ?thesis
    by (simp only: descendingScores_def)
qed


lemma fold_insertPivot_descending:
  assumes "descendingScores (take a workArray)" and "\<forall>d\<in>set workArray. score d \<noteq> NaN"
  shows "a \<le> n \<Longrightarrow> n \<le> length workArray \<Longrightarrow>
     descendingScores (take n (fold (insertPivot scoreCompare) [a ..< n] workArray))"
proof (induction n)
  case 0
  then show ?case by (simp add: descendingScores_def)
next
  case (Suc n)
  show ?case
  proof (cases "a \<le> n")
    case False
    with Suc.prems have "a = Suc n" by simp
    with assms(1) show ?thesis by simp
  next
    case True
    let ?w = "fold (insertPivot scoreCompare) [a ..< n] workArray"
    from Suc.prems have n: "n \<le> length workArray" by simp
    have m: "mset ?w = mset workArray" and len: "length ?w = length workArray"
      using fold_insertPivot [OF n, of scoreCompare a] by simp_all
    have "set ?w = set workArray"
      using m by (metis set_mset_mset)
    with assms(2) have nn: "\<forall>d\<in>set ?w. score d \<noteq> NaN" by simp
    have "descendingScores (take n ?w)"
      using Suc.IH True n by simp
    moreover have "n < length ?w"
      using Suc.prems len by simp
    ultimately have "descendingScores (take (Suc n) (insertPivot scoreCompare n ?w))"
      using nn by (rule insertPivot_descending)
    with True show ?thesis by simp
  qed
qed

lemma descending_array_sort:
  assumes "\<forall>d\<in>set xs. score d \<noteq> NaN"
  shows "descendingScores (array_sort scoreCompare xs)"
proof (cases "length xs < 2")
  case True
  then have "length xs \<le> 1" by simp
  then show ?thesis
    using True by (simp add: array_sort_def descendingScores_def sorted_wrt01)
next
  case False
  then have two: "2 \<le> length xs" by simp
  obtain workArray runLength where r: "countAndMakeRun scoreCompare xs = (workArray, runLength)"
    by (cases "countAndMakeRun scoreCompare xs")
  from countAndMakeRun_mset [OF r]
  have m: "mset workArray = mset xs" and rl: "runLength \<le> length workArray"
    by simp_all
  have "set workArray = set xs"
    using m by (metis set_mset_mset)
  with assms have nn: "\<forall>d\<in>set workArray. score d \<noteq> NaN" by simp
  from countAndMakeRun_descending [OF r two assms]
  have d: "descendingScores (take runLength workArray)" and p: "2 \<le> runLength"
    by simp_all
  let ?res = "fold (insertPivot scoreCompare) [runLength ..< length workArray] workArray"
  have "descendingScores (take (length workArray) ?res)"
    by (rule fold_insertPivot_descending [OF d nn rl]) simp
  moreover have "length ?res = length workArray"
    using fold_insertPivot [of "length workArray" workArray scoreCompare runLength] by simp
  ultimately have "descendingScores ?res" by simp
  moreover have "array_sort scoreCompare xs = ?res"
    using False r p by (simp add: array_sort_def binaryInsertionSort_def)
  ultimately show ?thesis by simp
qed

lemma suppress_fold_mem:
  "k \<in> fold (suppressStep srt thr i) [a ..< b] spr \<longleftrightarrow>
     k \<in> spr \<or> (a \<le> k \<and> k < b \<and> js_gt (calculateIoU (box (srt ! i)) (box (srt ! k))) thr)"
proof (induction b)
  case 0
  then show ?case by simp
next
  case (Suc b)
  show ?case
  proof (cases "a \<le> b")
    case True
    then show ?thesis
      using Suc by (auto simp: suppressStep_def Let_def less_Suc_eq)
  next
    case False
    then show ?thesis by auto
  qed
qed

lemma suppressLater_mem:
  "k \<in> suppressLater srt thr i spr \<longleftrightarrow>
     k \<in> spr \<or> (i < k \<and> k < length srt \<and> js_gt (calculateIoU (box (srt ! i)) (box (srt ! k))) thr)"
  unfolding suppressLater_def suppress_fold_mem by auto

lemma nmsInv_fold:
  "k \<le> length srt \<Longrightarrow> nmsInv srt thr k (fold (nmsStep srt thr) [0 ..< k] ([], {}))"
proof (induction k)
  case 0
  then show ?case by (simp add: nmsInv_def)
next
  case (Suc k)
  define st where "st = fold (nmsStep srt thr) [0 ..< k] ([], {})"
  have inv: "nmsInv srt thr k st"
    using Suc by (simp add: st_def)
  obtain sel spr where st: "st = (sel, spr)" by (cases st)
  have fold_eq: "fold (nmsStep srt thr) [0 ..< Suc k] ([], {}) = nmsStep srt thr k st"
    by (simp add: st_def)
  show ?case
  proof (cases "k \<in> spr")
    case True
    then have "nmsStep srt thr k st = st" by (simp add: nmsStep_def st)
    moreover have "nmsInv srt thr (Suc k) st"
      using inv True by (auto simp: nmsInv_def st less_Suc_eq)
    ultimately show ?thesis by (simp only: fold_eq)
  next
    case False
    let ?spr = "suppressLater srt thr k spr"
    have step: "nmsStep srt thr k st = (sel @ [srt ! k], ?spr)"
      using False by (simp add: nmsStep_def st)
    have same: "\<And>i. i \<le> k \<Longrightarrow> i \<in> ?spr \<longleftrightarrow> i \<in> spr"
      by (auto simp: suppressLater_mem)
    have "filter (\<lambda>i. i \<notin> ?spr) [0 ..< k] = filter (\<lambda>i. i \<notin> spr) [0 ..< k]"
      by (rule filter_cong) (auto simp: same)
    then have a: "sel @ [srt ! k] = map ((!) srt) (filter (\<lambda>i. i \<notin> ?spr) [0 ..< Suc k])"
      using inv False same [of k] by (simp add: nmsInv_def st)
    have b: "\<not> js_gt (calculateIoU (box (srt ! i)) (box (srt ! j))) thr"
      if "i < Suc k" "i \<notin> ?spr" "i < j" "j < length srt" "j \<notin> ?spr" for i j
    proof (cases "i = k")
      case True
      with that show ?thesis by (auto simp: suppressLater_mem)
    next
      case False
      with that have "i < k" "i \<notin> spr" "j \<notin> spr"
        by (auto simp: suppressLater_mem)
      with inv that show ?thesis by (auto simp: nmsInv_def st)
    qed
    show ?thesis
      unfolding fold_eq step nmsInv_def using a b by auto
  qed
qed


lemma applyNMS_eq:
  "\<exists>spr. applyNMS ds thr =
     map ((!) (array_sort scoreCompare ds))
       (filter (\<lambda>i. i \<notin> spr) [0 ..< length (array_sort scoreCompare ds)]) \<and>
     (\<forall>i j. i \<notin> spr \<and> i < j \<and> j < length (array_sort scoreCompare ds) \<and> j \<notin> spr \<longrightarrow>
        \<not> js_gt (calculateIoU (box (array_sort scoreCompare ds ! i))
                                 (box (array_sort scoreCompare ds ! j))) thr)"
proof (cases "length ds = 0")
  case True
  then show ?thesis by (simp add: applyNMS_def array_sort_def)
next
  case False
  let ?srt = "array_sort scoreCompare ds"
  let ?st = "fold (nmsStep ?srt thr) [0 ..< length ?srt] ([], {})"
  have "nmsInv ?srt thr (length ?srt) ?st"
    by (rule nmsInv_fold) simp
  moreover have "applyNMS ds thr = fst ?st"
    using False by (simp add: applyNMS_def Let_def)
  ultimately show ?thesis
    unfolding nmsInv_def by (intro exI [of _ "snd ?st"]) auto
qed

lemma applyNMS_mset: "mset (applyNMS ds thr) \<subseteq># mset ds"
proof -
  let ?srt = "array_sort scoreCompare ds"
  obtain spr where eq: "applyNMS ds thr = map ((!) ?srt) (filter (\<lambda>i. i \<notin> spr) [0 ..< length ?srt])"
    using applyNMS_eq by blast
  have "mset (applyNMS ds thr) = image_mset ((!) ?srt) (filter_mset (\<lambda>i. i \<notin> spr) (mset [0 ..< length ?srt]))"
    by (simp add: eq)
  also have "\<dots> \<subseteq># image_mset ((!) ?srt) (mset [0 ..< length ?srt])"
    by (rule image_mset_subseteq_mono) (rule multiset_filter_subset)
  also have "\<dots> = mset (map ((!) ?srt) [0 ..< length ?srt])"
    by simp
  also have "\<dots> = mset ds"
    by (simp only: map_nth mset_array_sort)
  finally show ?thesis .
qed

lemma applyNMS_pairwise:
  "sorted_wrt (\<lambda>a b. \<not> js_gt (calculateIoU (box a) (box b)) thr) (applyNMS ds thr)"
proof -
  let ?srt = "array_sort scoreCompare ds"
  obtain spr where eq: "applyNMS ds thr = map ((!) ?srt) (filter (\<lambda>i. i \<notin> spr) [0 ..< length ?srt])"
    and sep: "\<And>i j. i \<notin> spr \<Longrightarrow> i < j \<Longrightarrow> j < length ?srt \<Longrightarrow> j \<notin> spr \<Longrightarrow>
        \<not> js_gt (calculateIoU (box (?srt ! i)) (box (?srt ! j))) thr"
    using applyNMS_eq [of ds thr] by blast
  have "sorted_wrt (<) (filter (\<lambda>i. i \<notin> spr) [0 ..< length ?srt])"
    by (rule sorted_wrt_filter) simp
  then have "sorted_wrt (\<lambda>i j. \<not> js_gt (calculateIoU (box (?srt ! i)) (box (?srt ! j))) thr)
      (filter (\<lambda>i. i \<notin> spr) [0 ..< length ?srt])"
    by (rule sorted_wrt_mono_rel [rotated]) (use sep in auto)
  then show ?thesis
    by (simp add: eq sorted_wrt_map)
qed

lemma applyNMS_descending:
  assumes "\<forall>d\<in>set ds. score d \<noteq> NaN"
  shows "descendingScores (applyNMS ds thr)"
proof -
  let ?srt = "array_sort scoreCompare ds"
  obtain spr where eq: "applyNMS ds thr = map ((!) ?srt) (filter (\<lambda>i. i \<notin> spr) [0 ..< length ?srt])"
    using applyNMS_eq by blast
  have "descendingScores (map ((!) ?srt) [0 ..< length ?srt])"
    using descending_array_sort [OF assms] by (simp only: map_nth)
  then have "sorted_wrt (\<lambda>i j. js_ge (score (?srt ! i)) (score (?srt ! j))) [0 ..< length ?srt]"
    by (simp add: descendingScores_def sorted_wrt_map)
  then have "sorted_wrt (\<lambda>i j. js_ge (score (?srt ! i)) (score (?srt ! j)))
      (filter (\<lambda>i. i \<notin> spr) [0 ..< length ?srt])"
    by (rule sorted_wrt_filter)
  then show ?thesis
    by (simp add: eq descendingScores_def sorted_wrt_map)
qed

text \<open>
  What the filter guarantees on every input: the output is a sub-multiset of the input
  and no two of its detections have an IoU above the threshold, in either order of the
  pair. When no input score is NaN the output is sorted by descending score.
\<close>

lemma applyNMS_properties:
  "mset (applyNMS ds thr) \<subseteq># mset ds \<and>
   (\<forall>p q. p < q \<and> q < length (applyNMS ds thr) \<longrightarrow>
      \<not> js_gt (calculateIoU (box (applyNMS ds thr ! p)) (box (applyNMS ds thr ! q))) thr \<and>
      \<not> js_gt (calculateIoU (box (applyNMS ds thr ! q)) (box (applyNMS ds thr ! p))) thr) \<and>
   ((\<forall>d\<in>set ds. score d \<noteq> NaN) \<longrightarrow> descendingScores (applyNMS ds thr))"
proof (intro conjI allI impI)
  show "mset (applyNMS ds thr) \<subseteq># mset ds"
    by (rule applyNMS_mset)
next
  fix p q
  assume pq: "p < q \<and> q < length (applyNMS ds thr)"
  with applyNMS_pairwise [of thr ds]
  show "\<not> js_gt (calculateIoU (box (applyNMS ds thr ! p)) (box (applyNMS ds thr ! q))) thr"
    by (simp add: sorted_wrt_iff_nth_less)
  then show "\<not> js_gt (calculateIoU (box (applyNMS ds thr ! q)) (box (applyNMS ds thr ! p))) thr"
    using calculateIoU_commute [of "box (applyNMS ds thr ! q)" "box (applyNMS ds thr ! p)"]
    by simp
next
  assume "\<forall>d\<in>set ds. score d \<noteq> NaN"
  then show "descendingScores (applyNMS ds thr)"
    by (rule applyNMS_descending)
qed

lemma applyNMS_overlappingExample:
  "map score (applyNMS overlappingExample (Fin (1 / 2))) = [Fin (9 / 10), Fin (7 / 10)]"
  by code_simp

text \<open>
  The sort on scores 1, 2, NaN, 3 gives 3, 2, 1, NaN: the run 1, 2 is reversed, NaN
  stays behind it, and 3 is inserted at the front.
\<close>

lemma array_sort_nanScores:
  "map score (array_sort scoreCompare
     [plainDetection (finBox 0 0 1 1) (Fin 1), plainDetection (finBox 0 0 1 1) (Fin 2),
      plainDetection (finBox 0 0 1 1) NaN, plainDetection (finBox 0 0 1 1) (Fin 3)]) =
   [Fin 3, Fin 2, Fin 1, NaN]"
  by code_simp

text \<open>
  C1. The output of \<open>applyNMS\<close> is not always sorted by descending score: on three
  disjoint boxes with scores 1, NaN, 2 the comparator \<open>b.score - a.score\<close> is NaN against
  the middle entry, the sort leaves the three entries where they are, none suppresses
  another, and the output has score 1 before score 2.
\<close>

theorem C1_nan_score_breaks_descending_order:
  "map score (applyNMS nanScoreExample (Fin (1 / 2))) = [Fin 1, NaN, Fin 2] \<and>
   js_lt (score (applyNMS nanScoreExample (Fin (1 / 2)) ! 0))
         (score (applyNMS nanScoreExample (Fin (1 / 2)) ! 2)) \<and>
   \<not> descendingScores (applyNMS nanScoreExample (Fin (1 / 2)))"
  by code_simp


section \<open>Properties of the detection decoder\<close>

lemma js_lt_irrefl: "\<not> js_lt a a"
  by (cases a) auto

lemma decodeRow_None_iff:
  "decodeRow scale padL padT threshold det = None \<longleftrightarrow> js_lt (maxScoreOf det) threshold"
  by (simp add: decodeRow_def maxScoreOf_def Let_def)

lemma decodeRow_score:
  "decodeRow scale padL padT threshold det = Some d \<Longrightarrow> score d = maxScoreOf det"
  by (auto simp: decodeRow_def maxScoreOf_def Let_def split: if_splits)

lemma decodeRows_append:
  "decodeRows scale padL padT threshold rows results =
     results @ List.map_filter (decodeRow scale padL padT threshold) rows"
  by (induction rows arbitrary: results) (auto simp: List.map_filter_simps split: option.splits)

lemma map_filter_scores:
  "map score (List.map_filter (decodeRow scale padL padT threshold) rows) =
     filter (\<lambda>s. \<not> js_lt s threshold) (map maxScoreOf rows)"
proof (induction rows)
  case Nil
  then show ?case by (simp add: List.map_filter_simps)
next
  case (Cons det rows)
  show ?case
  proof (cases "decodeRow scale padL padT threshold det")
    case None
    then have "js_lt (maxScoreOf det) threshold" by (simp add: decodeRow_None_iff)
    with None Cons show ?thesis by (simp add: List.map_filter_simps)
  next
    case (Some d)
    then have "\<not> js_lt (maxScoreOf det) threshold"
      using decodeRow_None_iff [of scale padL padT threshold det] by simp
    with Some Cons decodeRow_score [OF Some] show ?thesis
      by (simp add: List.map_filter_simps)
  qed
qed

text \<open>
  C6. For every anchor row the decoder leaves the row out of \<open>results\<close> exactly when its
  best class score is strictly below the confidence threshold (the comparison \<open><\<close> of the
  language); a row whose best score equals the threshold is kept. Over a list of rows, the
  scores pushed onto \<open>results\<close> are, in order, the best scores that are not below the
  threshold.
\<close>

theorem C6_decoder_threshold:
  "(decodeRow scale padL padT threshold det = None \<longleftrightarrow> js_lt (maxScoreOf det) threshold) \<and>
   (maxScoreOf det = threshold \<longrightarrow> decodeRow scale padL padT threshold det \<noteq> None) \<and>
   map score (decodeRows scale padL padT threshold rows []) =
     filter (\<lambda>s. \<not> js_lt s threshold) (map maxScoreOf rows)"
  by (simp add: decodeRow_None_iff js_lt_irrefl decodeRows_append map_filter_scores)

theorem C6_decoder_threshold_witness:
  "maxScoreOf thresholdRow = Fin (1 / 2) \<and>
   decodeRow (Fin 1) (Fin 0) (Fin 0) (Fin (1 / 2)) thresholdRow \<noteq> None \<and>
   js_lt (maxScoreOf thresholdRow) (Fin (51 / 100)) \<and>
   decodeRow (Fin 1) (Fin 0) (Fin 0) (Fin (51 / 100)) thresholdRow = None \<and>
   map score (decodeRows (Fin 1) (Fin 0) (Fin 0) (Fin (1 / 2)) [thresholdRow, negativeWidthRow, lowScoreRow] [])
     = [Fin (1 / 2), Fin (9 / 10)]"
proof -
  have m: "maxScoreOf thresholdRow = Fin (1 / 2)"
    by code_simp
  have l: "js_lt (maxScoreOf thresholdRow) (Fin (51 / 100))"
    by code_simp
  have f: "filter (\<lambda>s. \<not> js_lt s (Fin (1 / 2))) (map maxScoreOf [thresholdRow, negativeWidthRow, lowScoreRow]) = [Fin (1 / 2), Fin (9 / 10)]"
    by code_simp
  from C6_decoder_threshold [of "Fin 1" "Fin 0" "Fin 0" "Fin (1 / 2)" thresholdRow "[thresholdRow, negativeWidthRow, lowScoreRow]"]
    C6_decoder_threshold [of "Fin 1" "Fin 0" "Fin 0" "Fin (51 / 100)" thresholdRow "[]"] m l f
  show ?thesis by simp
qed

lemma classScoresOf_nth: "4 < length det \<Longrightarrow> classScoresOf det = [det ! 4]"
  by (simp add: classScoresOf_def slice_def numClasses_def Cons_nth_drop_Suc [symmetric])

text \<open>
  C10. For an anchor row whose class-score entry is NaN, the rejection test
  \<open>maxScore < threshold\<close> is false for every threshold, and the row is emitted as a
  detection with score NaN and class -1.
\<close>

theorem C10_nan_row_emitted:
  assumes "4 < length det" and "det ! 4 = NaN"
  shows "\<not> js_lt (maxScoreOf det) threshold \<and>
         (\<exists>d. decodeRow scale padL padT threshold det = Some d \<and> score d = NaN \<and> classId d = - 1)"
  using assms
  by (simp add: decodeRow_def maxScoreOf_def classScoresOf_nth Math_max_spread_def Math_max_def
      indexOf_def js_strict_eq_def Let_def)

theorem C10_nan_row_emitted_witness:
  "4 < length nanRow \<and> nanRow ! 4 = NaN \<and>
   \<not> js_lt (maxScoreOf nanRow) (Fin (1 / 2)) \<and>
   (\<exists>d. decodeRow (Fin 1) (Fin 0) (Fin 0) (Fin (1 / 2)) nanRow = Some d \<and> score d = NaN \<and> classId d = - 1)"
proof -
  have a: "4 < length nanRow" and b: "nanRow ! 4 = NaN"
    by (simp_all add: nanRow_def)
  from C10_nan_row_emitted [OF a b, of "Fin (1 / 2)" "Fin 1" "Fin 0" "Fin 0"] a b
  show ?thesis by simp
qed

text \<open>
  C7 (as amended). Every detection decoded from a row with finite centre, non-negative
  finite raw width and height, under a positive finite scale, has width \<open>w / scale\<close> and
  height \<open>h / scale\<close>, both non-negative.
\<close>

theorem C7_extent_nonneg:
  assumes "decodeRow (Fin s) padL padT threshold det = Some d"
    and "0 < s"
    and "at_num det 0 = Fin xc" and "at_num det 1 = Fin yc"
    and "at_num det 2 = Fin w" and "at_num det 3 = Fin h"
    and "0 \<le> w" and "0 \<le> h"
  shows "width (box d) = Fin (w / s) \<and> height (box d) = Fin (h / s) \<and>
         js_ge (width (box d)) (Fin 0) \<and> js_ge (height (box d)) (Fin 0)"
proof -
  have "0 \<le> w / s" and "0 \<le> h / s"
    using assms(2,7,8) by simp_all
  then have "\<not> w / s < 0" and "\<not> h / s < 0"
    by simp_all
  with assms show ?thesis
    by (auto simp: decodeRow_def Let_def js_sub_def js_ge_def split: if_splits)
qed

theorem C7_extent_nonneg_witness:
  "decodeRow (Fin 2) (Fin 0) (Fin 0) (Fin (1 / 2)) [Fin 320, Fin 320, Fin 100, Fin 60, Fin (9 / 10)] =
     Some \<lparr>box = finBox 135 145 50 30, score = Fin (9 / 10), classId = 0, maskCoeffs = None, mask = None\<rparr> \<and>
   js_ge (width (finBox 135 145 50 30)) (Fin 0) \<and> js_ge (height (finBox 135 145 50 30)) (Fin 0)"
proof -
  let ?det = "[Fin 320, Fin 320, Fin 100, Fin 60, Fin (9 / 10)]"
  let ?d = "\<lparr>box = finBox 135 145 50 30, score = Fin (9 / 10), classId = 0, maskCoeffs = None, mask = None\<rparr>"
  have d: "decodeRow (Fin 2) (Fin 0) (Fin 0) (Fin (1 / 2)) ?det = Some ?d"
    by code_simp
  have e: "at_num ?det 0 = Fin 320" "at_num ?det 1 = Fin 320" "at_num ?det 2 = Fin 100" "at_num ?det 3 = Fin 60"
    by (simp_all add: at_num_def)
  have "js_ge (width (box ?d)) (Fin 0) \<and> js_ge (height (box ?d)) (Fin 0)"
    using C7_extent_nonneg [OF d _ e] by (simp add: finBox_def js_ge_def)
  with d show ?thesis by simp
qed

text \<open>
  C7, the claim as stated, fails: the decoder does not look at the sign of the raw extent,
  and a row with raw width -100 is decoded to a box of width -100.
\<close>

theorem C7_counterexample:
  "map (\<lambda>d. width (box d)) (decodeRows (Fin 1) (Fin 0) (Fin 0) (Fin (1 / 2)) [negativeWidthRow] []) = [Fin (- 100)] \<and>
   js_lt (Fin (- 100)) (Fin 0)"
  by code_simp

lemma decodeRow_box_fin:
  assumes "decodeRow (Fin s) (Fin pl) (Fin pt) threshold det = Some d"
    and "s \<noteq> 0"
    and "at_num det 0 = Fin xc" and "at_num det 1 = Fin yc"
    and "at_num det 2 = Fin w" and "at_num det 3 = Fin h"
  shows "box d = finBox ((xc - w / 2 - pl) / s) ((yc - h / 2 - pt) / s)
                        ((xc + w / 2 - (xc - w / 2)) / s) ((yc + h / 2 - (yc - h / 2)) / s)"
  using assms
  by (auto simp: decodeRow_def Let_def js_sub_def finBox_def split: if_splits)

text \<open>
  C5. For every box with finite coordinates and every letterbox transform with positive
  finite scale and finite padding, mapping the box forward through the letterbox
  (\<open>x640 = x * scale + pad\<close>) and decoding the resulting anchor row gives back the
  original box: corner and extent are reproduced exactly.
\<close>

theorem C5_letterbox_round_trip:
  assumes "0 < s"
    and "\<not> js_lt (maxScoreOf (letterboxRow (Fin s) (Fin pl) (Fin pt) (finBox a b w h) rest)) threshold"
  shows "\<exists>d. decodeRow (Fin s) (Fin pl) (Fin pt) threshold
                (letterboxRow (Fin s) (Fin pl) (Fin pt) (finBox a b w h) rest) = Some d \<and>
             box d = finBox a b w h"
proof -
  let ?row = "letterboxRow (Fin s) (Fin pl) (Fin pt) (finBox a b w h) rest"
  define xc where "xc = (a * s + pl + ((a + w) * s + pl)) / 2"
  define yc where "yc = (b * s + pt + ((b + h) * s + pt)) / 2"
  define ww where "ww = (a + w) * s + pl - (a * s + pl)"
  define hh where "hh = (b + h) * s + pt - (b * s + pt)"
  have r: "?row = [Fin xc, Fin yc, Fin ww, Fin hh] @ rest"
    by (simp add: letterboxRow_def to640_def finBox_def js_sub_def Let_def
        xc_def yc_def ww_def hh_def)
  have e: "at_num ?row 0 = Fin xc" "at_num ?row 1 = Fin yc"
          "at_num ?row 2 = Fin ww" "at_num ?row 3 = Fin hh"
    unfolding r by (simp_all add: at_num_def nth_append numeral_eq_Suc)
  from assms(2) obtain d where d: "decodeRow (Fin s) (Fin pl) (Fin pt) threshold ?row = Some d"
    by (auto simp: decodeRow_def maxScoreOf_def Let_def)
  from assms(1) have s0: "s \<noteq> 0" by simp
  have bx: "box d = finBox ((xc - ww / 2 - pl) / s) ((yc - hh / 2 - pt) / s)
                           ((xc + ww / 2 - (xc - ww / 2)) / s) ((yc + hh / 2 - (yc - hh / 2)) / s)"
    by (rule decodeRow_box_fin [OF d s0 e])
  have "(xc - ww / 2 - pl) / s = a"
    unfolding xc_def ww_def using s0 by (simp add: field_simps)
  moreover have "(yc - hh / 2 - pt) / s = b"
    unfolding yc_def hh_def using s0 by (simp add: field_simps)
  moreover have "(xc + ww / 2 - (xc - ww / 2)) / s = w"
    unfolding ww_def using s0 by (simp add: field_simps)
  moreover have "(yc + hh / 2 - (yc - hh / 2)) / s = h"
    unfolding hh_def using s0 by (simp add: field_simps)
  ultimately have "box d = finBox a b w h"
    using bx by simp
  with d show ?thesis by blast
qed

theorem C5_letterbox_round_trip_witness:
  "(0::real) < 1 / 2 \<and>
   \<not> js_lt (maxScoreOf (letterboxRow (Fin (1 / 2)) (Fin 0) (Fin 140) (finBox 30 40 200 100) [Fin (9 / 10)])) (Fin (1 / 2)) \<and>
   letterboxRow (Fin (1 / 2)) (Fin 0) (Fin 140) (finBox 30 40 200 100) [Fin (9 / 10)] =
     [Fin 65, Fin 185, Fin 100, Fin 50, Fin (9 / 10)] \<and>
   (\<exists>d. decodeRow (Fin (1 / 2)) (Fin 0) (Fin 140) (Fin (1 / 2))
           (letterboxRow (Fin (1 / 2)) (Fin 0) (Fin 140) (finBox 30 40 200 100) [Fin (9 / 10)]) = Some d \<and>
        box d = finBox 30 40 200 100)"
proof -
  have p: "(0::real) < 1 / 2" by simp
  have r: "letterboxRow (Fin (1 / 2)) (Fin 0) (Fin 140) (finBox 30 40 200 100) [Fin (9 / 10)] =
     [Fin 65, Fin 185, Fin 100, Fin 50, Fin (9 / 10)]"
    by (simp add: letterboxRow_def to640_def finBox_def js_sub_def Let_def)
  have m: "\<not> js_lt (maxScoreOf (letterboxRow (Fin (1 / 2)) (Fin 0) (Fin 140) (finBox 30 40 200 100) [Fin (9 / 10)])) (Fin (1 / 2))"
    unfolding r by code_simp
  from C5_letterbox_round_trip [OF p m] p r m show ?thesis by blast
qed

section \<open>Properties of the mask decoder\<close>

lemma slice_0: "slice cs 0 n = take n cs"
  by (simp add: slice_def)

lemma computeMask_take: "computeMask (take 32 cs) protosData = computeMask cs protosData"
  by (simp add: computeMask_def slice_0)

lemma length_concat_rows:
  "length (concat (map (\<lambda>i. map (g i) [0 ..< w]) [0 ..< h])) = h * w"
  by (simp add: length_concat comp_def sum_list_triv)

lemma computeMask_short:
  assumes "shape protosData = c # rest" and "length cs < 32" and "length cs \<noteq> c"
  shows "computeMask cs protosData = Inl TensorError"
  using assms
  by (auto simp: computeMask_def slice_0 einsum_c_chw_def tensor1d_def Let_def
      split: list.splits)

lemma computeMask_full:
  assumes "shape protosData = [32, h, w]" and "32 \<le> length cs"
  shows "\<exists>m. computeMask cs protosData = Inr m \<and> length m = h \<and> (\<forall>r\<in>set m. length r = w)"
proof -
  let ?g = "\<lambda>i j. js_sum (map (\<lambda>k. js_mul (take 32 cs ! k) (vals protosData ! ((k * h + i) * w + j))) [0 ..< 32])"
  let ?vs = "map sigmoid (concat (map (\<lambda>i. map (?g i) [0 ..< w]) [0 ..< h]))"
  let ?m = "map (\<lambda>i. take w (drop (i * w) ?vs)) [0 ..< h]"
  have l: "length ?vs = h * w"
    by (simp only: length_map length_concat_rows)
  have "computeMask cs protosData = Inr ?m"
    using assms
    by (simp add: computeMask_def slice_0 einsum_c_chw_def tensor1d_def tf_sigmoid_def
        arraySync2_def Let_def)
  moreover have "length ?m = h"
    by simp
  moreover have "\<forall>r\<in>set ?m. length r = w"
  proof
    fix r assume "r \<in> set ?m"
    then obtain i where i: "i < h" and r: "r = take w (drop (i * w) ?vs)"
      by auto
    from i have "Suc i * w \<le> h * w"
      by (simp only: Suc_le_eq [symmetric] mult_le_mono1)
    then have "w \<le> h * w - i * w"
      by simp
    then show "length r = w"
      unfolding r length_take length_drop l by simp
  qed
  ultimately show ?thesis by blast
qed

lemma decodeMaskStep_Inr:
  "\<exists>det' errors'. decodeMaskStep protosData i det errors = Inr (det', errors') \<and>
     set errors \<subseteq> set errors' \<and>
     (case maskCoeffs det of
        None \<Rightarrow> det' = det
      | Some cs \<Rightarrow>
          if cs = [] then det' = det
          else (case computeMask cs protosData of
                  Inl e \<Rightarrow> det' = det \<and> i \<in> set errors'
                | Inr m \<Rightarrow> det' = det\<lparr>mask := Some m\<rparr>))"
  by (auto simp: decodeMaskStep_def try_catch_def split: option.splits sum.splits)

lemma decodeMasksLoop_Inr:
  "\<exists>out errors'. decodeMasksLoop protosData i ds errors = Inr (out, errors') \<and>
     length out = length ds \<and> set errors \<subseteq> set errors' \<and>
     (\<forall>k<length ds.
        case maskCoeffs (ds ! k) of
          None \<Rightarrow> out ! k = ds ! k
        | Some cs \<Rightarrow>
            if cs = [] then out ! k = ds ! k
            else (case computeMask cs protosData of
                    Inl e \<Rightarrow> out ! k = ds ! k \<and> i + k \<in> set errors'
                  | Inr m \<Rightarrow> out ! k = (ds ! k)\<lparr>mask := Some m\<rparr>))"
proof (induction ds arbitrary: i errors)
  case Nil
  then show ?case by simp
next
  case (Cons det rest)
  obtain det' errors1 where step: "decodeMaskStep protosData i det errors = Inr (det', errors1)"
    and sub1: "set errors \<subseteq> set errors1"
    and one: "case maskCoeffs det of
        None \<Rightarrow> det' = det
      | Some cs \<Rightarrow>
          if cs = [] then det' = det
          else (case computeMask cs protosData of
                  Inl e \<Rightarrow> det' = det \<and> i \<in> set errors1
                | Inr m \<Rightarrow> det' = det\<lparr>mask := Some m\<rparr>)"
    using decodeMaskStep_Inr [of protosData i det errors] by blast
  obtain out errors2 where loop: "decodeMasksLoop protosData (Suc i) rest errors1 = Inr (out, errors2)"
    and len: "length out = length rest"
    and sub2: "set errors1 \<subseteq> set errors2"
    and all: "\<forall>k<length rest.
        case maskCoeffs (rest ! k) of
          None \<Rightarrow> out ! k = rest ! k
        | Some cs \<Rightarrow>
            if cs = [] then out ! k = rest ! k
            else (case computeMask cs protosData of
                    Inl e \<Rightarrow> out ! k = rest ! k \<and> Suc i + k \<in> set errors2
                  | Inr m \<Rightarrow> out ! k = (rest ! k)\<lparr>mask := Some m\<rparr>)"
    using Cons.IH [of "Suc i" errors1] by blast
  have res: "decodeMasksLoop protosData i (det # rest) errors = Inr (det' # out, errors2)"
    by (simp add: step loop)
  have "\<forall>k<length (det # rest).
        case maskCoeffs ((det # rest) ! k) of
          None \<Rightarrow> (det' # out) ! k = (det # rest) ! k
        | Some cs \<Rightarrow>
            if cs = [] then (det' # out) ! k = (det # rest) ! k
            else (case computeMask cs protosData of
                    Inl e \<Rightarrow> (det' # out) ! k = (det # rest) ! k \<and> i + k \<in> set errors2
                  | Inr m \<Rightarrow> (det' # out) ! k = ((det # rest) ! k)\<lparr>mask := Some m\<rparr>)"
  proof (intro allI impI)
    fix k assume k: "k < length (det # rest)"
    show "case maskCoeffs ((det # rest) ! k) of
          None \<Rightarrow> (det' # out) ! k = (det # rest) ! k
        | Some cs \<Rightarrow>
            if cs = [] then (det' # out) ! k = (det # rest) ! k
            else (case computeMask cs protosData of
                    Inl e \<Rightarrow> (det' # out) ! k = (det # rest) ! k \<and> i + k \<in> set errors2
                  | Inr m \<Rightarrow> (det' # out) ! k = ((det # rest) ! k)\<lparr>mask := Some m\<rparr>)"
    proof (cases k)
      case 0
      with one sub2 show ?thesis
        by (auto split: option.splits sum.splits if_splits)
    next
      case (Suc k')
      with k have "k' < length rest" by simp
      with all Suc show ?thesis
        by (auto split: option.splits sum.splits if_splits)
    qed
  qed
  with res len sub1 sub2 show ?case
    by (intro exI [of _ "det' # out"] exI [of _ errors2]) auto
qed

lemma normalize_channelsLast:
  "squeeze0 channelsLastProtos = Inr squeezedProtos \<and>
   normalizeProtos squeezedProtos = channelsFirstProtos"
  by code_simp

lemma einsum_ones_zeros:
  "einsum_c_chw (tensor1d (replicate 32 (Fin 1))) channelsFirstProtos =
     Inr \<lparr>shape = [1, 1], vals = [Fin 0]\<rparr>"
  by code_simp

lemma computeMask_fullCoeffs:
  "computeMask (replicate 33 (Fin 1)) channelsFirstProtos = Inr [[Fin (1 / 2)]]"
proof -
  have sl: "slice (replicate 33 (Fin 1)) 0 32 = replicate 32 (Fin 1)"
    by (simp add: slice_0)
  show ?thesis
    unfolding computeMask_def Let_def sl einsum_ones_zeros
    by (simp add: tf_sigmoid_def arraySync2_def)
qed

lemma computeMask_shortCoeffs:
  "computeMask [Fin 1, Fin 1] channelsFirstProtos = Inl TensorError"
  by (rule computeMask_short [of _ 32 "[1, 1]"]) (simp_all add: channelsFirstProtos_def)

text \<open>
  C8. For every batch of detections entering the mask decoder, once the prototype tensor
  has been squeezed, the loop returns normally: no exception reaches the caller and the
  batch keeps its length. A detection without coefficients is passed through; a detection
  whose mask computation throws is left as it was and its index is reported; every other
  detection gets its mask.
\<close>

theorem C8_mask_failure_does_not_abort:
  assumes "squeeze0 maskProtos = Inr protosData"
  shows "\<exists>out errors. decodeMasks ds maskProtos = Inr (out, errors) \<and>
     length out = length ds \<and>
     (\<forall>k<length ds.
        case maskCoeffs (ds ! k) of
          None \<Rightarrow> out ! k = ds ! k
        | Some cs \<Rightarrow>
            if cs = [] then out ! k = ds ! k
            else (case computeMask cs (normalizeProtos protosData) of
                    Inl e \<Rightarrow> out ! k = ds ! k \<and> k \<in> set errors
                  | Inr m \<Rightarrow> out ! k = (ds ! k)\<lparr>mask := Some m\<rparr>))"
proof -
  have "decodeMasks ds maskProtos = decodeMasksLoop (normalizeProtos protosData) 0 ds []"
    by (simp add: decodeMasks_def assms)
  then show ?thesis
    using decodeMasksLoop_Inr [of "normalizeProtos protosData" 0 ds "[]", unfolded add_0]
    by (simp only:) blast
qed

theorem C8_mask_failure_does_not_abort_witness:
  "squeeze0 channelsLastProtos = Inr squeezedProtos \<and>
   (\<exists>out errors.
      decodeMasks [shortCoeffsDetection, fullCoeffsDetection] channelsLastProtos = Inr (out, errors) \<and>
      length out = 2 \<and> out ! 0 = shortCoeffsDetection \<and> 0 \<in> set errors \<and>
      out ! 1 = fullCoeffsDetection\<lparr>mask := Some [[Fin (1 / 2)]]\<rparr>)"
proof -
  let ?ds = "[shortCoeffsDetection, fullCoeffsDetection]"
  have sq: "squeeze0 channelsLastProtos = Inr squeezedProtos"
    using normalize_channelsLast by simp
  have np: "normalizeProtos squeezedProtos = channelsFirstProtos"
    using normalize_channelsLast by simp
  from C8_mask_failure_does_not_abort [OF sq, of ?ds]
  obtain out errors where r: "decodeMasks ?ds channelsLastProtos = Inr (out, errors)"
    and l: "length out = length ?ds"
    and a: "\<forall>k<length ?ds.
        case maskCoeffs (?ds ! k) of
          None \<Rightarrow> out ! k = ?ds ! k
        | Some cs \<Rightarrow>
            if cs = [] then out ! k = ?ds ! k
            else (case computeMask cs (normalizeProtos squeezedProtos) of
                    Inl e \<Rightarrow> out ! k = ?ds ! k \<and> k \<in> set errors
                  | Inr m \<Rightarrow> out ! k = (?ds ! k)\<lparr>mask := Some m\<rparr>)"
    by blast
  have k0: "out ! 0 = shortCoeffsDetection \<and> 0 \<in> set errors"
    using a [rule_format, of 0]
    by (simp add: np computeMask_shortCoeffs shortCoeffsDetection_def)
  have k1: "out ! 1 = fullCoeffsDetection\<lparr>mask := Some [[Fin (1 / 2)]]\<rparr>"
    using a [rule_format, of 1]
    by (simp add: np computeMask_fullCoeffs fullCoeffsDetection_def)
  from sq r l k0 k1 show ?thesis by simp
qed

lemma concat_blocks:
  assumes "\<forall>k<K. length (F k) = n"
  shows "length (concat (map F [0 ..< K])) = K * n \<and>
         (\<forall>k<K. \<forall>r<n. concat (map F [0 ..< K]) ! (k * n + r) = F k ! r)"
  using assms
proof (induction K)
  case 0
  then show ?case by simp
next
  case (Suc K)
  then have IH: "length (concat (map F [0 ..< K])) = K * n"
    "\<forall>k<K. \<forall>r<n. concat (map F [0 ..< K]) ! (k * n + r) = F k ! r"
    by simp_all
  from Suc.prems have lK: "length (F K) = n" by simp
  have "concat (map F [0 ..< Suc K]) ! (k * n + r) = F k ! r" if "k < Suc K" "r < n" for k r
  proof (cases "k < K")
    case True
    then have "Suc k * n \<le> K * n"
      by (simp only: Suc_le_eq [symmetric] mult_le_mono1)
    with that have "k * n + r < K * n" by simp
    with IH True that show ?thesis by (simp add: nth_append)
  next
    case False
    with that have "k = K" by simp
    with IH that show ?thesis by (simp add: nth_append)
  qed
  with IH lK show ?case by simp
qed

lemma nth_concat_rows:
  "i < h \<Longrightarrow> j < w \<Longrightarrow> concat (map (\<lambda>i. map (f i) [0 ..< w]) [0 ..< h]) ! (i * w + j) = f i j"
  using concat_blocks [of h "\<lambda>i. map (f i) [0 ..< w]" w] by simp

lemma transpose201_nth:
  assumes "shape t = [h, w, n]" and "c < n" and "i < h" and "j < w"
  shows "shape (transpose201 t) = [n, h, w] \<and>
         vals (transpose201 t) ! ((c * h + i) * w + j) = vals t ! ((i * w + j) * n + c)"
proof -
  let ?F = "\<lambda>k. concat (map (\<lambda>i. map (\<lambda>j. vals t ! ((i * w + j) * n + k)) [0 ..< w]) [0 ..< h])"
  have len: "\<forall>k<n. length (?F k) = h * w"
    by (simp add: length_concat_rows)
  have "i * w + j < h * w"
  proof -
    from assms(3) have "Suc i * w \<le> h * w"
      by (simp only: Suc_le_eq [symmetric] mult_le_mono1)
    with assms(4) show ?thesis by simp
  qed
  with concat_blocks [OF len] assms(2)
  have "concat (map ?F [0 ..< n]) ! (c * (h * w) + (i * w + j)) = ?F c ! (i * w + j)"
    by blast
  also have "?F c ! (i * w + j) = vals t ! ((i * w + j) * n + c)"
    using assms(3,4) by (rule nth_concat_rows)
  also have "c * (h * w) + (i * w + j) = (c * h + i) * w + j"
    by (simp add: algebra_simps)
  finally show ?thesis
    using assms(1) by (simp add: transpose201_def)
qed


lemma computeMask_entries:
  assumes "shape protosData = [32, h, w]" and "32 \<le> length cs"
  shows "\<exists>m. computeMask cs protosData = Inr m \<and> length m = h \<and>
           (\<forall>i<h. length (m ! i) = w \<and>
              (\<forall>j<w. m ! i ! j =
                 sigmoid (js_sum (map (\<lambda>c. js_mul (cs ! c) (vals protosData ! ((c * h + i) * w + j)))
                   [0 ..< 32]))))"
proof -
  let ?S = "\<lambda>i j. js_sum (map (\<lambda>k. js_mul (take 32 cs ! k) (vals protosData ! ((k * h + i) * w + j))) [0 ..< 32])"
  let ?cc = "concat (map (\<lambda>i. map (?S i) [0 ..< w]) [0 ..< h])"
  let ?vs = "map sigmoid ?cc"
  let ?m = "map (\<lambda>i. take w (drop (i * w) ?vs)) [0 ..< h]"
  have l: "length ?vs = h * w"
    by (simp only: length_map length_concat_rows)
  have cm: "computeMask cs protosData = Inr ?m"
    using assms
    by (simp add: computeMask_def slice_0 einsum_c_chw_def tensor1d_def tf_sigmoid_def
        arraySync2_def Let_def)
  have S: "?S i j = js_sum (map (\<lambda>c. js_mul (cs ! c) (vals protosData ! ((c * h + i) * w + j))) [0 ..< 32])"
    for i j
  proof -
    have "map (\<lambda>k. js_mul (take 32 cs ! k) (vals protosData ! ((k * h + i) * w + j))) [0 ..< 32] =
          map (\<lambda>c. js_mul (cs ! c) (vals protosData ! ((c * h + i) * w + j))) [0 ..< 32]"
      by (rule map_cong) simp_all
    then show ?thesis by (simp only:)
  qed
  have e: "length (?m ! i) = w \<and> (\<forall>j<w. ?m ! i ! j = sigmoid (?S i j))" if "i < h" for i
  proof -
    from that have "Suc i * w \<le> h * w"
      by (simp only: Suc_le_eq [symmetric] mult_le_mono1)
    then have b: "i * w + w \<le> h * w" by simp
    have mi: "?m ! i = take w (drop (i * w) ?vs)"
      using that by simp
    have "length (take w (drop (i * w) ?vs)) = w"
      unfolding length_take length_drop l using b by simp
    moreover have "take w (drop (i * w) ?vs) ! j = sigmoid (?S i j)" if "j < w" for j
    proof -
      from that b have lt: "i * w + j < h * w" by simp
      from b have "i * w \<le> h * w" by (rule add_leD1)
      then have le: "i * w \<le> length ?vs"
        by (simp only: l)
      have "take w (drop (i * w) ?vs) ! j = drop (i * w) ?vs ! j"
        using that by (rule nth_take)
      also have "\<dots> = ?vs ! (i * w + j)"
        using le by (rule nth_drop)
      also have "\<dots> = sigmoid (?cc ! (i * w + j))"
        using lt by (simp only: nth_map length_concat_rows)
      also have "?cc ! (i * w + j) = ?S i j"
        using \<open>i < h\<close> that by (rule nth_concat_rows)
      finally show ?thesis .
    qed
    ultimately show ?thesis
      unfolding mi by blast
  qed
  have "length ?m = h" by simp
  with cm e show ?thesis
    unfolding S by blast
qed

lemma normalize_layout:
  assumes "shape maskProtos = [1, h, w, 32] \<and>
             P = (\<lambda>c i j. vals maskProtos ! ((i * w + j) * 32 + c)) \<or>
           shape maskProtos = [1, 32, h, w] \<and> 32 < w \<and>
             P = (\<lambda>c i j. vals maskProtos ! ((c * h + i) * w + j))"
  shows "\<exists>protosData. squeeze0 maskProtos = Inr protosData \<and>
           shape (normalizeProtos protosData) = [32, h, w] \<and>
           (\<forall>c<32. \<forall>i<h. \<forall>j<w.
              vals (normalizeProtos protosData) ! ((c * h + i) * w + j) = P c i j)"
  using assms
proof
  assume a: "shape maskProtos = [1, h, w, 32] \<and>
             P = (\<lambda>c i j. vals maskProtos ! ((i * w + j) * 32 + c))"
  let ?p = "maskProtos\<lparr>shape := [h, w, 32]\<rparr>"
  have sq: "squeeze0 maskProtos = Inr ?p"
    using a by (simp add: squeeze0_def)
  have sh: "shape ?p = [h, w, 32]" by simp
  have np: "normalizeProtos ?p = transpose201 ?p"
    by (simp add: normalizeProtos_def)
  have "shape (transpose201 ?p) = [32, h, w] \<and>
        vals (transpose201 ?p) ! ((c * h + i) * w + j) = P c i j"
    if "c < 32" "i < h" "j < w" for c i j
    using transpose201_nth [OF sh that] a by simp
  moreover have "shape (transpose201 ?p) = [32, h, w]"
    by (simp add: transpose201_def)
  ultimately show ?thesis
    using sq np by auto
next
  assume a: "shape maskProtos = [1, 32, h, w] \<and> 32 < w \<and>
             P = (\<lambda>c i j. vals maskProtos ! ((c * h + i) * w + j))"
  let ?p = "maskProtos\<lparr>shape := [32, h, w]\<rparr>"
  have sq: "squeeze0 maskProtos = Inr ?p"
    using a by (simp add: squeeze0_def)
  have np: "normalizeProtos ?p = ?p"
    using a by (simp add: normalizeProtos_def)
  show ?thesis
    using sq np a by auto
qed

lemma singleton_nth: "length xs = 1 \<Longrightarrow> xs = [xs ! 0]"
  by (cases xs) auto

text \<open>
  C4 (as amended). For every detection entering the mask decoder with a non-empty
  coefficient list, and every prototype tensor that the decoder's layout step brings to
  32 channels first (shape \<open>[1, h, w, 32]\<close>, or shape \<open>[1, 32, h, w]\<close> with \<open>w > 32\<close>):
  when at least 32 coefficients are present, the detection gets a mask of \<open>h\<close> rows of
  \<open>w\<close> entries, and entry \<open>(i, j)\<close> is the logistic function of the sum, over the first
  32 coefficients, of coefficient times prototype value at \<open>(i, j)\<close>; the coefficients
  after the 32nd are silently dropped. When fewer than 32 are present nothing is padded:
  the contraction throws on the size mismatch, the exception is caught, the index is
  reported and the detection is left as it was, without a mask.
\<close>

theorem C4_first_32_coefficients_no_padding:
  assumes "shape maskProtos = [1, h, w, 32] \<and>
             P = (\<lambda>c i j. vals maskProtos ! ((i * w + j) * 32 + c)) \<or>
           shape maskProtos = [1, 32, h, w] \<and> 32 < w \<and>
             P = (\<lambda>c i j. vals maskProtos ! ((c * h + i) * w + j))"
    and "k < length ds" and "maskCoeffs (ds ! k) = Some cs" and "cs \<noteq> []"
  shows "\<exists>out errors. decodeMasks ds maskProtos = Inr (out, errors) \<and> length out = length ds \<and>
           (32 \<le> length cs \<longrightarrow>
              (\<exists>m. out ! k = (ds ! k)\<lparr>mask := Some m\<rparr> \<and> length m = h \<and>
                 (\<forall>i<h. length (m ! i) = w \<and>
                    (\<forall>j<w. m ! i ! j =
                       sigmoid (js_sum (map (\<lambda>c. js_mul (cs ! c) (P c i j)) [0 ..< 32])))))) \<and>
           (length cs < 32 \<longrightarrow> out ! k = ds ! k \<and> k \<in> set errors)"
proof -
  from normalize_layout [OF assms(1)] obtain protosData
    where sq: "squeeze0 maskProtos = Inr protosData"
      and sh: "shape (normalizeProtos protosData) = [32, h, w]"
      and pv: "\<And>c i j. c < 32 \<Longrightarrow> i < h \<Longrightarrow> j < w \<Longrightarrow>
                 vals (normalizeProtos protosData) ! ((c * h + i) * w + j) = P c i j"
    by blast
  let ?N = "normalizeProtos protosData"
  have dm: "decodeMasks ds maskProtos = decodeMasksLoop ?N 0 ds []"
    by (simp add: decodeMasks_def sq)
  from decodeMasksLoop_Inr [of ?N 0 ds "[]", unfolded add_0]
  obtain out errors where r: "decodeMasksLoop ?N 0 ds [] = Inr (out, errors)"
    and l: "length out = length ds"
    and a: "\<forall>k<length ds.
        case maskCoeffs (ds ! k) of
          None \<Rightarrow> out ! k = ds ! k
        | Some cs \<Rightarrow>
            if cs = [] then out ! k = ds ! k
            else (case computeMask cs ?N of
                    Inl e \<Rightarrow> out ! k = ds ! k \<and> k \<in> set errors
                  | Inr m \<Rightarrow> out ! k = (ds ! k)\<lparr>mask := Some m\<rparr>)"
    by blast
  from a [rule_format, OF assms(2)] assms(3,4)
  have ck: "case computeMask cs ?N of
              Inl e \<Rightarrow> out ! k = ds ! k \<and> k \<in> set errors
            | Inr m \<Rightarrow> out ! k = (ds ! k)\<lparr>mask := Some m\<rparr>"
    by simp
  have long: "\<exists>m. out ! k = (ds ! k)\<lparr>mask := Some m\<rparr> \<and> length m = h \<and>
                 (\<forall>i<h. length (m ! i) = w \<and>
                    (\<forall>j<w. m ! i ! j =
                       sigmoid (js_sum (map (\<lambda>c. js_mul (cs ! c) (P c i j)) [0 ..< 32]))))"
    if "32 \<le> length cs"
  proof -
    from computeMask_entries [OF sh that] obtain m
      where m: "computeMask cs ?N = Inr m" and lm: "length m = h"
        and em: "\<And>i. i < h \<Longrightarrow> length (m ! i) = w \<and>
              (\<forall>j<w. m ! i ! j =
                 sigmoid (js_sum (map (\<lambda>c. js_mul (cs ! c) (vals ?N ! ((c * h + i) * w + j)))
                   [0 ..< 32])))"
      by blast
    have "m ! i ! j = sigmoid (js_sum (map (\<lambda>c. js_mul (cs ! c) (P c i j)) [0 ..< 32]))"
      if "i < h" "j < w" for i j
    proof -
      have eq: "map (\<lambda>c. js_mul (cs ! c) (vals ?N ! ((c * h + i) * w + j))) [0 ..< 32] =
            map (\<lambda>c. js_mul (cs ! c) (P c i j)) [0 ..< 32]"
        by (rule map_cong) (simp_all add: pv that)
      from em [OF that(1)] that(2)
      have "m ! i ! j =
          sigmoid (js_sum (map (\<lambda>c. js_mul (cs ! c) (vals ?N ! ((c * h + i) * w + j))) [0 ..< 32]))"
        by blast
      then show ?thesis by (simp only: eq)
    qed
    moreover have "out ! k = (ds ! k)\<lparr>mask := Some m\<rparr>"
      using ck m by simp
    ultimately show ?thesis
      using lm em by blast
  qed
  have short: "out ! k = ds ! k \<and> k \<in> set errors" if "length cs < 32"
  proof -
    from that have "computeMask cs ?N = Inl TensorError"
      using computeMask_short [OF sh] by simp
    with ck show ?thesis by simp
  qed
  from dm r l long short show ?thesis
    by (simp only:) blast
qed

theorem C4_first_32_coefficients_no_padding_witness:
  "shape weightedProtos = [1, 1, 1, 32] \<and>
   maskCoeffs ([shortCoeffsDetection, weightedDetection] ! 1) = Some weightedCoeffs \<and>
   32 \<le> length weightedCoeffs \<and>
   maskCoeffs ([shortCoeffsDetection, weightedDetection] ! 0) = Some [Fin 1, Fin 1] \<and>
   length [Fin 1, Fin 1 :: number] < 32 \<and>
   (\<exists>out errors.
      decodeMasks [shortCoeffsDetection, weightedDetection] weightedProtos = Inr (out, errors) \<and>
      length out = 2 \<and> out ! 0 = shortCoeffsDetection \<and> 0 \<in> set errors \<and>
      out ! 1 = weightedDetection\<lparr>mask := Some [[sigmoid (Fin 13)]]\<rparr>) \<and>
   shape channelsFirstWideProtos = [1, 32, 1, 33] \<and>
   (\<exists>out errors m.
      decodeMasks [weightedDetection] channelsFirstWideProtos = Inr (out, errors) \<and>
      out ! 0 = weightedDetection\<lparr>mask := Some m\<rparr> \<and> length m = 1 \<and>
      length (m ! 0) = 33 \<and> m ! 0 ! 0 = sigmoid (Fin 218))"
proof -
  let ?ds = "[shortCoeffsDetection, weightedDetection]"
  define P :: "nat \<Rightarrow> nat \<Rightarrow> nat \<Rightarrow> number"
    where "P = (\<lambda>c i j. vals weightedProtos ! ((i * 1 + j) * 32 + c))"
  define Q :: "nat \<Rightarrow> nat \<Rightarrow> nat \<Rightarrow> number"
    where "Q = (\<lambda>c i j. vals channelsFirstWideProtos ! ((c * 1 + i) * 33 + j))"
  have shL: "shape weightedProtos = [1, 1, 1, 32]"
    by (simp add: weightedProtos_def)
  have shF: "shape channelsFirstWideProtos = [1, 32, 1, 33]"
    by (simp add: channelsFirstWideProtos_def)
  have hypL: "shape weightedProtos = [1, 1, 1, 32] \<and>
                P = (\<lambda>c i j. vals weightedProtos ! ((i * 1 + j) * 32 + c)) \<or>
              shape weightedProtos = [1, 32, 1, 1] \<and> 32 < (1::nat) \<and>
                P = (\<lambda>c i j. vals weightedProtos ! ((c * 1 + i) * 1 + j))"
    using shL P_def by blast
  have hypF: "shape channelsFirstWideProtos = [1, 1, 33, 32] \<and>
                Q = (\<lambda>c i j. vals channelsFirstWideProtos ! ((i * 33 + j) * 32 + c)) \<or>
              shape channelsFirstWideProtos = [1, 32, 1, 33] \<and> 32 < (33::nat) \<and>
                Q = (\<lambda>c i j. vals channelsFirstWideProtos ! ((c * 1 + i) * 33 + j))"
    using shF Q_def by simp
  have c1: "maskCoeffs (?ds ! 1) = Some weightedCoeffs"
    by (simp add: weightedDetection_def)
  have c0: "maskCoeffs (?ds ! 0) = Some [Fin 1, Fin 1]"
    by (simp add: shortCoeffsDetection_def)
  have cw: "maskCoeffs ([weightedDetection] ! 0) = Some weightedCoeffs"
    by (simp add: weightedDetection_def)
  have l32: "32 \<le> length weightedCoeffs" and nw: "weightedCoeffs \<noteq> []"
    by (simp_all add: weightedCoeffs_def)
  have sumL: "js_sum (map (\<lambda>c. js_mul (weightedCoeffs ! c) (P c 0 0)) [0 ..< 32]) = Fin 13"
    unfolding P_def by code_simp
  have sumF: "js_sum (map (\<lambda>c. js_mul (weightedCoeffs ! c) (Q c 0 0)) [0 ..< 32]) = Fin 218"
    unfolding Q_def by code_simp
  from C4_first_32_coefficients_no_padding [OF hypL _ c1 nw]
  obtain out errors m where r: "decodeMasks ?ds weightedProtos = Inr (out, errors)"
    and lo: "length out = length ?ds"
    and o1: "out ! 1 = (?ds ! 1)\<lparr>mask := Some m\<rparr>" and lm: "length m = 1"
    and em: "\<forall>i<1. length (m ! i) = 1 \<and>
               (\<forall>j<1. m ! i ! j =
                  sigmoid (js_sum (map (\<lambda>c. js_mul (weightedCoeffs ! c) (P c i j)) [0 ..< 32])))"
    using l32 by auto
  from em have "length (m ! 0) = 1" and "m ! 0 ! 0 = sigmoid (Fin 13)"
    by (simp_all add: sumL)
  then have "m ! 0 = [sigmoid (Fin 13)]"
    using singleton_nth [of "m ! 0"] by simp
  with lm have m: "m = [[sigmoid (Fin 13)]]"
    using singleton_nth [of m] by simp
  have n0: "[Fin 1, Fin 1 :: number] \<noteq> []"
    by simp
  from C4_first_32_coefficients_no_padding [OF hypL _ c0 n0]
  obtain out' errors' where r': "decodeMasks ?ds weightedProtos = Inr (out', errors')"
    and o0: "out' ! 0 = ?ds ! 0 \<and> 0 \<in> set errors'"
    by auto
  from r r' have same: "out' = out" "errors' = errors" by simp_all
  have left: "\<exists>out errors.
      decodeMasks ?ds weightedProtos = Inr (out, errors) \<and>
      length out = 2 \<and> out ! 0 = shortCoeffsDetection \<and> 0 \<in> set errors \<and>
      out ! 1 = weightedDetection\<lparr>mask := Some [[sigmoid (Fin 13)]]\<rparr>"
    using r lo o1 o0 same m by (intro exI [of _ out] exI [of _ errors]) simp
  from C4_first_32_coefficients_no_padding [OF hypF _ cw nw]
  obtain outF errorsF mF where rF: "decodeMasks [weightedDetection] channelsFirstWideProtos = Inr (outF, errorsF)"
    and oF: "outF ! 0 = ([weightedDetection] ! 0)\<lparr>mask := Some mF\<rparr>" and lmF: "length mF = 1"
    and emF: "\<forall>i<1. length (mF ! i) = 33 \<and>
               (\<forall>j<33. mF ! i ! j =
                  sigmoid (js_sum (map (\<lambda>c. js_mul (weightedCoeffs ! c) (Q c i j)) [0 ..< 32])))"
    using l32 by auto
  from emF have "length (mF ! 0) = 33" and "mF ! 0 ! 0 = sigmoid (Fin 218)"
    by (simp_all add: sumF)
  with rF oF lmF have right: "\<exists>out errors m.
      decodeMasks [weightedDetection] channelsFirstWideProtos = Inr (out, errors) \<and>
      out ! 0 = weightedDetection\<lparr>mask := Some m\<rparr> \<and> length m = 1 \<and>
      length (m ! 0) = 33 \<and> m ! 0 ! 0 = sigmoid (Fin 218)"
    by (intro exI [of _ outF] exI [of _ errorsF] exI [of _ mF]) simp
  from shL c1 l32 c0 left shF right show ?thesis
    by simp
qed


text \<open>
  C4, the claim as stated, fails: a detection with two coefficients, decoded against
  32 prototype channels, gets no mask; its index is reported as an error instead.
\<close>

theorem C4_counterexample:
  "maskCoeffs shortCoeffsDetection = Some [Fin 1, Fin 1] \<and>
   decodeMasks [shortCoeffsDetection] channelsLastProtos = Inr ([shortCoeffsDetection], [0]) \<and>
   mask shortCoeffsDetection = None"
  by code_simp


section \<open>Properties of the renderer and of the per-image run\<close>

text \<open>
  C9. The colour lookup \<open>colors[det.class % colors.length]\<close> is not always inside the
  palette: the pipeline turns an anchor row with a NaN score into a detection of class -1,
  the remainder of -1 by a palette length of 2 is -1, and the lookup reads outside the
  palette.
\<close>

theorem C9_negative_class_reads_outside_palette:
  "(case processSegmentation nanOutput (Fin 640) (Fin 640) (Fin 1) (Fin 0) (Fin 0) (Fin (1 / 2)) True of
      Inl e \<Rightarrow> False
    | Inr ds \<Rightarrow> map classId ds = [- 1] \<and>
                js_rem (- 1) (int (length [''#FF3838'', ''#FF9D97''])) = Some (- 1) \<and>
                map (colorOf [''#FF3838'', ''#FF9D97'']) ds = [None])"
  by code_simp

text \<open>
  C3. The run does not restore the guard on every exit path: when the canvas hands out no
  2D context, the function returns after setting \<open>isProcessing\<close> and disabling the
  upload control, before the \<open>try\<close> statement whose \<open>finally\<close> clause resets them.
\<close>

theorem C3_no_context_leaves_guard_set:
  "detectAndSegment noContextRun idlePage =
     (\<lparr>isProcessing = True, processingShown = True, inferenceTimeShown = False,
       imageUploadDisabled = True, alerts = 0\<rparr>, Returned)"
  by (simp add: detectAndSegment_def noContextRun_def idlePage_def)

theorem C3_no_context_leaves_guard_set_witness:
  "modelLoaded noContextRun \<and> \<not> isProcessing idlePage \<and> \<not> context2d noContextRun \<and>
   isProcessing (fst (detectAndSegment noContextRun idlePage)) \<and>
   imageUploadDisabled (fst (detectAndSegment noContextRun idlePage)) \<and>
   snd (detectAndSegment noContextRun idlePage) = Returned"
  using C3_no_context_leaves_guard_set
  by (simp add: noContextRun_def idlePage_def)

end
